theory Spec2Isabelle
  imports Main "HOL-Library.Extended_Nat"
begin

section \<open>Strings and the regular expressions of the converter\<close>

text \<open>
  The converter is the group of private methods \<^verbatim>\<open>parseMarkdownInline\<close>,
  \<^verbatim>\<open>buildParagraph\<close>, \<^verbatim>\<open>getLineIndent\<close>, \<^verbatim>\<open>splitTableRow\<close>,
  \<^verbatim>\<open>isTableSeparator\<close>, \<^verbatim>\<open>buildTableNode\<close>, \<^verbatim>\<open>parseMarkdownBlocks\<close> and
  \<^verbatim>\<open>createTextADF\<close> of the class \<^verbatim>\<open>JiraService\<close>.

  A JavaScript string is a sequence of code units. It is modelled as a \<^typ>\<open>string\<close>,
  each \<^typ>\<open>char\<close> standing for the code unit of the same number, so the model covers
  the strings whose code units are below 256. Every regular expression of the source is
  translated into a function that computes the match the backtracking matcher finds
  first. All but the search pattern of the tokenizer are anchored at the start. Where
  a greedy repetition is followed in the pattern by a character outside its class, only
  the longest run can lead to a match, and the function takes that run; the one other
  case is explained at \<open>matchSpacesRest\<close>.
\<close>

definition LF :: char where "LF = CHR 0x0A"
definition CR :: char where "CR = CHR 0x0D"

text \<open>
  The class \<^verbatim>\<open>\s\<close>, which is also what \<^verbatim>\<open>trim\<close> and \<^verbatim>\<open>trimEnd\<close> remove: tab, line
  feed, vertical tab, form feed, carriage return, space and no-break space.
\<close>

definition isSpace :: "char \<Rightarrow> bool" where
  "isSpace c = (c = CHR 0x09 \<or> c = CHR 0x0A \<or> c = CHR 0x0B \<or> c = CHR 0x0C \<or> c = CHR 0x0D
     \<or> c = CHR 0x20 \<or> c = CHR 0xA0)"

text \<open>The class \<^verbatim>\<open>\d\<close>.\<close>

definition isDigit :: "char \<Rightarrow> bool" where
  "isDigit c = (48 \<le> (of_char c :: nat) \<and> (of_char c :: nat) \<le> 57)"

text \<open>The class \<^verbatim>\<open>[\w-]\<close>: letters, digits, underscore and the hyphen.\<close>

definition isWordOrDash :: "char \<Rightarrow> bool" where
  "isWordOrDash c = (let n = (of_char c :: nat) in
     (65 \<le> n \<and> n \<le> 90) \<or> (97 \<le> n \<and> n \<le> 122) \<or> (48 \<le> n \<and> n \<le> 57)
     \<or> c = CHR ''_'' \<or> c = CHR ''-'')"

text \<open>The dot of a regular expression matches every code unit but a line terminator.\<close>

definition isLineTerminator :: "char \<Rightarrow> bool" where
  "isLineTerminator c = (c = LF \<or> c = CR)"

definition trimStart :: "string \<Rightarrow> string" where
  "trimStart s = dropWhile isSpace s"

definition trimEnd :: "string \<Rightarrow> string" where
  "trimEnd s = rev (dropWhile isSpace (rev s))"

definition trim :: "string \<Rightarrow> string" where
  "trim s = trimEnd (trimStart s)"

text \<open>\<^verbatim>\<open>s.startsWith(p)\<close>, and the rest of \<open>s\<close> after a prefix \<open>p\<close>.\<close>

fun stripPrefix :: "string \<Rightarrow> string \<Rightarrow> string option" where
  "stripPrefix [] s = Some s"
| "stripPrefix (p # ps) [] = None"
| "stripPrefix (p # ps) (c # cs) = (if p = c then stripPrefix ps cs else None)"

text \<open>\<^verbatim>\<open>s.split(sep)\<close> for a separator of one character: never an empty array.\<close>

fun splitOn :: "char \<Rightarrow> string \<Rightarrow> string list" where
  "splitOn sep [] = [[]]"
| "splitOn sep (c # cs) =
     (let r = splitOn sep cs in
      if c = sep then [] # r
      else (case r of [] \<Rightarrow> [[c]] | l # ls \<Rightarrow> (c # l) # ls))"

text \<open>\<^verbatim>\<open>xs.join(sep)\<close>.\<close>

fun joinWith :: "string \<Rightarrow> string list \<Rightarrow> string" where
  "joinWith sep [] = []"
| "joinWith sep [x] = x"
| "joinWith sep (x # y # ys) = x @ sep @ joinWith sep (y # ys)"

text \<open>\<^verbatim>\<open>text.replace(/\r\n/g, "\n")\<close>.\<close>

fun replaceCRLF :: "string \<Rightarrow> string" where
  "replaceCRLF (a # b # cs) =
     (if a = CR \<and> b = LF then LF # replaceCRLF cs else a # replaceCRLF (b # cs))"
| "replaceCRLF cs = cs"

section \<open>The document tree\<close>

datatype mark = Strong | Em | Strike | Code | Link string

text \<open>
  A text node has an optional \<^verbatim>\<open>marks\<close> array: \<open>None\<close> is the absent property.
\<close>

datatype inline = Text string "mark list option" | HardBreak

section \<open>The inline tokenizer\<close>

text \<open>
  The patterns \<^verbatim>\<open>/^~~([^~]+)~~/\<close>, \<^verbatim>\<open>/^\*\*([^*]+)\*\*/\<close>, \<^verbatim>\<open>/^\*([^*]+)\*/\<close>,
  \<^verbatim>\<open>/^__([^_]+)__/\<close>, \<^verbatim>\<open>/^_([^_]+)_/\<close> and \<^verbatim>\<open>/^`([^`]+)`/\<close> have one shape: a
  delimiter \<open>d\<close>, the longest run of characters other than \<open>c\<close> (not empty), and the
  delimiter again. The run can only be followed by \<open>c\<close> or by the end, so no shorter
  run can match. The result is the group and the text after the match.
\<close>

definition matchDelimited :: "string \<Rightarrow> char \<Rightarrow> string \<Rightarrow> (string \<times> string) option" where
  "matchDelimited d c s =
     (case stripPrefix d s of
        None \<Rightarrow> None
      | Some r \<Rightarrow>
          (let inner = takeWhile (\<lambda>x. x \<noteq> c) r in
           if inner = [] then None
           else (case stripPrefix d (dropWhile (\<lambda>x. x \<noteq> c) r) of
                   None \<Rightarrow> None
                 | Some rest \<Rightarrow> Some (inner, rest))))"

text \<open>
  The pattern \<^verbatim>\<open>/^\[([^\]]+)\]\(([^)]+)\)/\<close>: the text group, the target group and the
  text after the match.
\<close>

definition matchLink :: "string \<Rightarrow> (string \<times> string \<times> string) option" where
  "matchLink s =
     (case stripPrefix ''['' s of
        None \<Rightarrow> None
      | Some r \<Rightarrow>
          (let label = takeWhile (\<lambda>x. x \<noteq> CHR '']'') r in
           if label = [] then None
           else (case stripPrefix '']('' (dropWhile (\<lambda>x. x \<noteq> CHR '']'') r) of
                   None \<Rightarrow> None
                 | Some r2 \<Rightarrow>
                     (let href = takeWhile (\<lambda>x. x \<noteq> CHR '')'') r2 in
                      if href = [] then None
                      else (case stripPrefix '')'' (dropWhile (\<lambda>x. x \<noteq> CHR '')'') r2) of
                              None \<Rightarrow> None
                            | Some rest \<Rightarrow> Some (label, href, rest))))))"

text \<open>
  The \<^verbatim>\<open>for (const pattern of patterns)\<close> loop: the first pattern that matches, in the
  order of the array, gives the node that is pushed and the new \<^verbatim>\<open>remaining\<close>.
\<close>

definition matchFirstPattern :: "string \<Rightarrow> (inline \<times> string) option" where
  "matchFirstPattern s =
     (case matchDelimited ''~~'' (CHR ''~'') s of
        Some (t, rest) \<Rightarrow> Some (Text t (Some [Strike]), rest)
      | None \<Rightarrow>
     (case matchDelimited ''**'' (CHR ''*'') s of
        Some (t, rest) \<Rightarrow> Some (Text t (Some [Strong]), rest)
      | None \<Rightarrow>
     (case matchDelimited ''*'' (CHR ''*'') s of
        Some (t, rest) \<Rightarrow> Some (Text t (Some [Em]), rest)
      | None \<Rightarrow>
     (case matchDelimited ''__'' (CHR ''_'') s of
        Some (t, rest) \<Rightarrow> Some (Text t (Some [Strong]), rest)
      | None \<Rightarrow>
     (case matchDelimited ''_'' (CHR ''_'') s of
        Some (t, rest) \<Rightarrow> Some (Text t (Some [Em]), rest)
      | None \<Rightarrow>
     (case matchDelimited ''`'' (CHR ''`'') s of
        Some (t, rest) \<Rightarrow> Some (Text t (Some [Code]), rest)
      | None \<Rightarrow>
     (case matchLink s of
        Some (t, href, rest) \<Rightarrow> Some (Text t (Some [Link href]), rest)
      | None \<Rightarrow> None)))))))"

text \<open>
  A position where \<^verbatim>\<open>/~~|\*\*|\*|__|_|`|\[|\]/\<close> matches: a star, an underscore, a
  backquote, a bracket, or a tilde followed by a tilde.
\<close>

fun isSpecialAt :: "string \<Rightarrow> bool" where
  "isSpecialAt [] = False"
| "isSpecialAt (c # cs) =
     (c = CHR ''*'' \<or> c = CHR ''_'' \<or> c = CHR ''`'' \<or> c = CHR ''['' \<or> c = CHR '']''
      \<or> (c = CHR ''~'' \<and> (case cs of [] \<Rightarrow> False | c2 # _ \<Rightarrow> c2 = CHR ''~'')))"

text \<open>\<^verbatim>\<open>remaining.search(...)\<close>: the first such position, \<open>None\<close> for \<open>-1\<close>.\<close>

fun searchSpecial :: "string \<Rightarrow> nat option" where
  "searchSpecial [] = None"
| "searchSpecial (c # cs) =
     (if isSpecialAt (c # cs) then Some 0 else map_option Suc (searchSpecial cs))"

lemma stripPrefix_length: "stripPrefix p s = Some r \<Longrightarrow> length s = length p + length r"
  by (induction p s rule: stripPrefix.induct) (auto split: if_splits)

lemma length_takeWhile_dropWhile: "length (takeWhile P xs) + length (dropWhile P xs) = length xs"
  by (induction xs) auto

lemma matchDelimited_shorter:
  assumes "matchDelimited d c s = Some (t, rest)"
  shows "length rest < length s" and "t \<noteq> []"
proof -
  from assms obtain r where r: "stripPrefix d s = Some r"
    by (auto simp: matchDelimited_def split: option.splits)
  from assms r have t: "t = takeWhile (\<lambda>x. x \<noteq> c) r" and ne: "t \<noteq> []"
    and rest: "stripPrefix d (dropWhile (\<lambda>x. x \<noteq> c) r) = Some rest"
    by (auto simp: matchDelimited_def Let_def split: option.splits if_splits)
  from ne show "t \<noteq> []" .
  have "length t + length (dropWhile (\<lambda>x. x \<noteq> c) r) = length r"
    unfolding t by (rule length_takeWhile_dropWhile)
  moreover have "length t > 0" using ne by simp
  moreover note stripPrefix_length [OF r] stripPrefix_length [OF rest]
  ultimately show "length rest < length s" by arith
qed

lemma matchLink_shorter:
  assumes "matchLink s = Some (t, h, rest)"
  shows "length rest < length s" and "t \<noteq> []"
proof -
  from assms obtain r where r: "stripPrefix ''['' s = Some r"
    by (auto simp: matchLink_def split: option.splits)
  from assms r obtain r2 where t: "t = takeWhile (\<lambda>x. x \<noteq> CHR '']'') r" and ne: "t \<noteq> []"
    and r2: "stripPrefix '']('' (dropWhile (\<lambda>x. x \<noteq> CHR '']'') r) = Some r2"
    by (auto simp: matchLink_def Let_def split: option.splits if_splits)
  from assms r r2 ne t have rest: "stripPrefix '')'' (dropWhile (\<lambda>x. x \<noteq> CHR '')'') r2) = Some rest"
    by (auto simp: matchLink_def Let_def split: option.splits if_splits)
  from ne show "t \<noteq> []" .
  have "length t + length (dropWhile (\<lambda>x. x \<noteq> CHR '']'') r) = length r"
    unfolding t by (rule length_takeWhile_dropWhile)
  moreover have "length (dropWhile (\<lambda>x. x \<noteq> CHR '')'') r2) \<le> length r2"
    by (rule length_dropWhile_le)
  moreover note stripPrefix_length [OF r] stripPrefix_length [OF r2] stripPrefix_length [OF rest]
  ultimately show "length rest < length s" by simp
qed

lemma matchFirstPattern_shorter:
  assumes "matchFirstPattern s = Some (n, rest)"
  shows "length rest < length s"
  using assms unfolding matchFirstPattern_def
  by (auto split: option.splits dest: matchDelimited_shorter(1) matchLink_shorter(1))

text \<open>
  The \<^verbatim>\<open>while (remaining.length > 0)\<close> loop of \<^verbatim>\<open>parseMarkdownInline\<close>, with the
  array \<^verbatim>\<open>nodes\<close> it pushes to.
\<close>

function inlineLoop :: "inline list \<Rightarrow> string \<Rightarrow> inline list" where
  "inlineLoop nodes remaining =
     (if remaining = [] then nodes
      else (case matchFirstPattern remaining of
              Some (node, rest) \<Rightarrow> inlineLoop (nodes @ [node]) rest
            | None \<Rightarrow>
                (case searchSpecial remaining of
                   None \<Rightarrow> nodes @ [Text remaining None]
                 | Some nextSpecial \<Rightarrow>
                     if nextSpecial = 0
                     then inlineLoop (nodes @ [Text [hd remaining] None]) (tl remaining)
                     else inlineLoop (nodes @ [Text (take nextSpecial remaining) None])
                            (drop nextSpecial remaining))))"
  by pat_completeness auto

lemma inlineLoop_total: "All inlineLoop_dom"
  by (relation "measure (\<lambda>(nodes, remaining). length remaining)")
     (auto dest: matchFirstPattern_shorter)

termination inlineLoop
  by (rule inlineLoop_total)

declare inlineLoop.simps [simp del]

definition parseMarkdownInline :: "string \<Rightarrow> inline list" where
  "parseMarkdownInline text = inlineLoop [] text"

text \<open>\<^verbatim>\<open>buildParagraph\<close> returns a paragraph node, given here by its content.\<close>

definition buildParagraphContent :: "string \<Rightarrow> inline list" where
  "buildParagraphContent text =
     (let content = parseMarkdownInline text in
      if content \<noteq> [] then content else [Text [] None])"

section \<open>Block nodes\<close>

datatype listType = Bullet | Ordered

text \<open>
  The block nodes, by their \<^verbatim>\<open>type\<close> tag. \<open>Heading\<close> carries \<^verbatim>\<open>attrs.level\<close>,
  \<open>CodeBlock\<close> the optional \<^verbatim>\<open>attrs.language\<close>, \<open>OrderedList\<close> the optional
  \<^verbatim>\<open>attrs.order\<close>, \<open>Table\<close> the attributes \<^verbatim>\<open>isNumberColumnEnabled\<close> and
  \<^verbatim>\<open>layout\<close>; the last argument is the \<^verbatim>\<open>content\<close> array.
\<close>

datatype block =
    Paragraph "inline list"
  | Heading nat "inline list"
  | CodeBlock "string option" "inline list"
  | Blockquote "block list"
  | BulletList "listItem list"
  | OrderedList "enat option" "listItem list"
  | Table bool string "tableRow list"
and listItem = ListItem "block list"
and tableRow = TableRow "tableCell list"
and tableCell = TableHeader "block list" | TableCell "block list"

record document =
  version :: nat
  content :: "block list"

definition buildParagraph :: "string \<Rightarrow> block" where
  "buildParagraph text = Paragraph (buildParagraphContent text)"

subsection \<open>Lines\<close>

text \<open>
  \<^verbatim>\<open>getLineIndent\<close>: the leading whitespace matched by \<^verbatim>\<open>/^(\s*)/\<close>, every tab
  replaced by two spaces, and its length.
\<close>

definition getLineIndent :: "string \<Rightarrow> nat" where
  "getLineIndent line =
     length (concat (map (\<lambda>c. if c = CHR 0x09 then ''  '' else [c]) (takeWhile isSpace line)))"

text \<open>
  \<^verbatim>\<open>splitTableRow\<close>: trim, drop one leading and then one trailing bar, split at the
  bars, trim every cell.
\<close>

definition splitTableRow :: "string \<Rightarrow> string list" where
  "splitTableRow line =
     (let t = trim line;
          t1 = (case t of [] \<Rightarrow> t | c # r \<Rightarrow> if c = CHR ''|'' then r else t);
          t2 = (if t1 \<noteq> [] \<and> last t1 = CHR ''|'' then butlast t1 else t1)
      in map trim (splitOn (CHR ''|'') t2))"

text \<open>The test \<^verbatim>\<open>/^:?-{3,}:?$/\<close> on a cell.\<close>

definition isSeparatorCell :: "string \<Rightarrow> bool" where
  "isSeparatorCell cell =
     (let c1 = (case cell of [] \<Rightarrow> cell | c # r \<Rightarrow> if c = CHR '':'' then r else cell);
          dashes = takeWhile (\<lambda>c. c = CHR ''-'') c1;
          rest = dropWhile (\<lambda>c. c = CHR ''-'') c1
      in 3 \<le> length dashes \<and> (rest = [] \<or> rest = '':''))"

definition isTableSeparator :: "string \<Rightarrow> bool" where
  "isTableSeparator line =
     (let cells = splitTableRow line in cells \<noteq> [] \<and> list_all isSeparatorCell cells)"

definition toParagraph :: "string \<Rightarrow> block" where
  "toParagraph v =
     (let inl = parseMarkdownInline v in
      Paragraph (if inl \<noteq> [] then inl else [Text [] None]))"

definition buildTableNode :: "string \<Rightarrow> string list \<Rightarrow> block" where
  "buildTableNode headerLine bodyLines =
     (let headerRow = TableRow (map (\<lambda>cell. TableHeader [toParagraph cell]) (splitTableRow headerLine));
          bodyRows = map (\<lambda>line. TableRow (map (\<lambda>cell. TableCell [toParagraph cell]) (splitTableRow line)))
                       bodyLines
      in Table False ''default'' (headerRow # bodyRows))"

text \<open>
  \<^verbatim>\<open>trimmed.match(/^```([\w-]+)?\s*$/)\<close>: \<open>None\<close> when there is no match, otherwise the
  group, itself \<open>None\<close> when it did not take part in the match.
\<close>

definition codeFenceStart :: "string \<Rightarrow> string option option" where
  "codeFenceStart trimmed =
     (case stripPrefix ''```'' trimmed of
        None \<Rightarrow> None
      | Some r \<Rightarrow>
          (let w = takeWhile isWordOrDash r in
           if list_all isSpace (dropWhile isWordOrDash r)
           then Some (if w = [] then None else Some w)
           else None))"

text \<open>The test \<^verbatim>\<open>/^\s*```\s*$/\<close> that ends a code block.\<close>

definition isCodeFenceEnd :: "string \<Rightarrow> bool" where
  "isCodeFenceEnd l =
     (case stripPrefix ''```'' (dropWhile isSpace l) of
        None \<Rightarrow> False
      | Some r \<Rightarrow> list_all isSpace r)"

text \<open>
  The condition of the table branch, on the trimmed line and the lines after it:
  \<^verbatim>\<open>i + 1 < lines.length && trimmed.includes("|") && this.isTableSeparator(lines[i + 1].trim())\<close>.
\<close>

definition isTableStart :: "string \<Rightarrow> string list \<Rightarrow> bool" where
  "isTableStart trimmed rest =
     (case rest of
        [] \<Rightarrow> False
      | next # _ \<Rightarrow> CHR ''|'' \<in> set trimmed \<and> isTableSeparator (trim next))"

text \<open>The condition under which the table loop takes a line as a body row.\<close>

definition isTableBodyRow :: "string \<Rightarrow> bool" where
  "isTableBodyRow l = (let row = trim l in \<not> (row = [] \<or> CHR ''|'' \<notin> set row))"

text \<open>The test \<^verbatim>\<open>/^\s*>\s?/\<close>, and the replacement of its match by the empty string.\<close>

definition isQuoteLine :: "string \<Rightarrow> bool" where
  "isQuoteLine l = (case dropWhile isSpace l of [] \<Rightarrow> False | c # r \<Rightarrow> c = CHR ''>'')"

definition stripQuote :: "string \<Rightarrow> string" where
  "stripQuote l =
     (case dropWhile isSpace l of
        [] \<Rightarrow> l
      | c # r \<Rightarrow>
          if c = CHR ''>''
          then (case r of [] \<Rightarrow> r | d # r' \<Rightarrow> if isSpace d then r' else r)
          else l)"

text \<open>
  The tail \<^verbatim>\<open>\s+(.*)$\<close> shared by the heading and list item patterns: at least one
  whitespace character, then a rest without line terminator up to the end of the string.
  The group is what follows the longest whitespace run: a shorter run leaves the dot
  more to match, not less.
\<close>

definition matchSpacesRest :: "string \<Rightarrow> string option" where
  "matchSpacesRest r =
     (case r of
        [] \<Rightarrow> None
      | c # _ \<Rightarrow>
          if isSpace c \<and> list_all (\<lambda>x. \<not> isLineTerminator x) (dropWhile isSpace r)
          then Some (dropWhile isSpace r)
          else None)"

text \<open>\<^verbatim>\<open>trimmed.match(/^(#{1,6})\s+(.*)$/)\<close>: the length of group 1, and group 2.\<close>

definition headingMatch :: "string \<Rightarrow> (nat \<times> string) option" where
  "headingMatch trimmed =
     (let hashes = takeWhile (\<lambda>c. c = CHR ''#'') trimmed in
      if 1 \<le> length hashes \<and> length hashes \<le> 6
      then (case matchSpacesRest (dropWhile (\<lambda>c. c = CHR ''#'') trimmed) of
              None \<Rightarrow> None
            | Some t \<Rightarrow> Some (length hashes, t))
      else None)"

text \<open>\<^verbatim>\<open>line.match(/^(\s*)[-*]\s+(.*)$/)\<close>: groups 1 and 2.\<close>

definition bulletMatch :: "string \<Rightarrow> (string \<times> string) option" where
  "bulletMatch line =
     (case dropWhile isSpace line of
        [] \<Rightarrow> None
      | c # r \<Rightarrow>
          if c = CHR ''-'' \<or> c = CHR ''*''
          then (case matchSpacesRest r of
                  None \<Rightarrow> None
                | Some t \<Rightarrow> Some (takeWhile isSpace line, t))
          else None)"

text \<open>\<^verbatim>\<open>line.match(/^(\s*)(\d+)\.\s+(.*)$/)\<close>: groups 1, 2 and 3.\<close>

definition orderedMatch :: "string \<Rightarrow> (string \<times> string \<times> string) option" where
  "orderedMatch line =
     (let r = dropWhile isSpace line; ds = takeWhile isDigit r in
      if ds = [] then None
      else (case dropWhile isDigit r of
              [] \<Rightarrow> None
            | c # r2 \<Rightarrow>
                if c = CHR ''.''
                then (case matchSpacesRest r2 of
                        None \<Rightarrow> None
                      | Some t \<Rightarrow> Some (takeWhile isSpace line, ds, t))
                else None))"

text \<open>
  \<^verbatim>\<open>Number(s)\<close> on a string of decimal digits. A JavaScript number is a double: the
  result is the double nearest to the number the digits denote, with a tie going to the
  even significand of 53 bits, and \<^verbatim>\<open>Infinity\<close> when that rounding reaches \<open>2^1024\<close>.
  Such a double is a natural number or \<^verbatim>\<open>Infinity\<close> and is kept as an \<^typ>\<open>enat\<close>, with
  \<open>\<infinity>\<close> for \<^verbatim>\<open>Infinity\<close>. Up to \<open>2^53\<close> the result is the number of the digits itself.
  (For more than 20 significant digits the language lets an implementation round the
  digits after the 20th before it takes the nearest double; the definition takes the
  nearest double of the digits as they are.)
\<close>

definition digitsValue :: "string \<Rightarrow> nat" where
  "digitsValue ds = foldl (\<lambda>n c. 10 * n + ((of_char c :: nat) - 48)) 0 ds"

fun bitLength :: "nat \<Rightarrow> nat" where
  "bitLength n = (if n = 0 then 0 else Suc (bitLength (n div 2)))"

declare bitLength.simps [simp del]

definition roundToDouble :: "nat \<Rightarrow> enat" where
  "roundToDouble n =
     (if bitLength n \<le> 53 then enat n
      else (let e = bitLength n - 53;
                q = n div 2 ^ e;
                r = n mod 2 ^ e;
                half = 2 ^ (e - 1);
                m = (if half < r \<or> (r = half \<and> odd q) then q + 1 else q)
            in if 1024 < bitLength (m * 2 ^ e) then \<infinity> else enat (m * 2 ^ e)))"

definition Number :: "string \<Rightarrow> enat" where
  "Number ds = roundToDouble (digitsValue ds)"

section \<open>The state of the block loop\<close>

text \<open>
  \<^verbatim>\<open>parseMarkdownBlocks\<close> keeps the array \<^verbatim>\<open>blocks\<close>, the array \<^verbatim>\<open>paragraphLines\<close> and
  the array \<^verbatim>\<open>listStack\<close>. An entry of \<^verbatim>\<open>listStack\<close> holds a reference to a list node
  that is also reachable from \<^verbatim>\<open>blocks\<close>, and the list is filled through that
  reference. The model keeps one tree, \<open>blocks\<close>, and a reference is the path to the
  node in it: \<open>[i]\<close> is \<^verbatim>\<open>blocks[i]\<close>, and \<open>p @ [j, k]\<close> is
  \<^verbatim>\<open>n.content[j].content[k]\<close> for the list node \<open>n\<close> at \<open>p\<close>. The arrays of the tree
  only grow at their end while a path into them is on the stack, so a path keeps
  denoting the node it was made for.

  The top of \<^verbatim>\<open>listStack\<close> (the last element of the array) is the head of the list.
\<close>

record listEntry =
  etype :: listType
  indent :: nat
  node :: "nat list"

record pstate =
  blocks :: "block list"
  paragraphLines :: "string list"
  listStack :: "listEntry list"

definition initialState :: pstate where
  "initialState = \<lparr>blocks = [], paragraphLines = [], listStack = []\<rparr>"

text \<open>The \<^verbatim>\<open>content\<close> of a list node and of a list item, and a list node with a new content.\<close>

fun listContent :: "block \<Rightarrow> listItem list option" where
  "listContent (BulletList items) = Some items"
| "listContent (OrderedList order items) = Some items"
| "listContent b = None"

fun setListContent :: "listItem list \<Rightarrow> block \<Rightarrow> block" where
  "setListContent items (BulletList old) = BulletList items"
| "setListContent items (OrderedList order old) = OrderedList order items"
| "setListContent items b = b"

fun itemContent :: "listItem \<Rightarrow> block list" where
  "itemContent (ListItem c) = c"

text \<open>Reading and updating the node a path denotes.\<close>

fun getNode :: "block list \<Rightarrow> nat list \<Rightarrow> block option" where
  "getNode bs [] = None"
| "getNode bs [i] = (if i < length bs then Some (bs ! i) else None)"
| "getNode bs (i # j # p) =
     (if i < length bs
      then (case listContent (bs ! i) of
              None \<Rightarrow> None
            | Some items \<Rightarrow>
                if j < length items then getNode (itemContent (items ! j)) p else None)
      else None)"

fun updNode :: "nat list \<Rightarrow> (block \<Rightarrow> block) \<Rightarrow> block list \<Rightarrow> block list" where
  "updNode [] f bs = bs"
| "updNode [i] f bs = (if i < length bs then bs[i := f (bs ! i)] else bs)"
| "updNode (i # j # p) f bs =
     (if i < length bs
      then (case listContent (bs ! i) of
              None \<Rightarrow> bs
            | Some items \<Rightarrow>
                if j < length items
                then bs[i := setListContent
                               (items[j := ListItem (updNode p f (itemContent (items ! j)))])
                               (bs ! i)]
                else bs)
      else bs)"

text \<open>\<^verbatim>\<open>n.content.push(item)\<close> on a list node \<open>n\<close>.\<close>

definition pushItem :: "listItem \<Rightarrow> block \<Rightarrow> block" where
  "pushItem item n =
     (case listContent n of None \<Rightarrow> n | Some items \<Rightarrow> setListContent (items @ [item]) n)"

definition pushBlock :: "block \<Rightarrow> pstate \<Rightarrow> pstate" where
  "pushBlock b st = st\<lparr>blocks := blocks st @ [b]\<rparr>"

definition flushParagraph :: "pstate \<Rightarrow> pstate" where
  "flushParagraph st =
     (if paragraphLines st = [] then st
      else (let content = trim (joinWith '' '' (paragraphLines st));
                st1 = (if content \<noteq> [] then pushBlock (buildParagraph content) st else st)
            in st1\<lparr>paragraphLines := []\<rparr>))"

definition flushListStack :: "pstate \<Rightarrow> pstate" where
  "flushListStack st = st\<lparr>listStack := []\<rparr>"

definition createListNode :: "listType \<Rightarrow> enat option \<Rightarrow> block" where
  "createListNode ty start =
     (case ty of
        Bullet \<Rightarrow> BulletList []
      | Ordered \<Rightarrow>
          OrderedList (case start of None \<Rightarrow> None | Some n \<Rightarrow> if n \<noteq> 0 then Some n else None) [])"

text \<open>The loop of \<^verbatim>\<open>ensureListContext\<close> that pops the entries indented deeper.\<close>

fun popDeeper :: "nat \<Rightarrow> listEntry list \<Rightarrow> listEntry list" where
  "popDeeper ind [] = []"
| "popDeeper ind (e # es) = (if indent e > ind then popDeeper ind es else e # es)"

text \<open>
  The part of \<^verbatim>\<open>ensureListContext\<close> after the parent is chosen. Without a parent the
  new node is pushed to \<^verbatim>\<open>blocks\<close>. With a parent it is pushed to the content of the
  parent's last item, after an item holding an empty paragraph has been pushed to a
  parent without items. The new entry is pushed to the stack and returned.
\<close>

definition nestInParent :: "block \<Rightarrow> block \<Rightarrow> block" where
  "nestInParent n parentNode =
     (case listContent parentNode of
        None \<Rightarrow> parentNode
      | Some items0 \<Rightarrow>
          (let items1 = (if items0 = [] then [ListItem [buildParagraph []]] else items0)
           in setListContent
                (butlast items1 @ [ListItem (itemContent (last items1) @ [n])]) parentNode))"

definition nestedPath :: "block list \<Rightarrow> nat list \<Rightarrow> nat list" where
  "nestedPath bs p =
     (case getNode bs p of
        None \<Rightarrow> p @ [0, 0]
      | Some parentNode \<Rightarrow>
          (case listContent parentNode of
             None \<Rightarrow> p @ [0, 0]
           | Some items0 \<Rightarrow>
               if items0 = [] then p @ [0, 1]
               else p @ [length items0 - 1, length (itemContent (last items0))]))"

definition attachList ::
    "listType \<Rightarrow> nat \<Rightarrow> enat option \<Rightarrow> listEntry option \<Rightarrow> pstate \<Rightarrow> listEntry \<times> pstate" where
  "attachList ty ind start parent st =
     (let n = createListNode ty start in
      case parent of
        None \<Rightarrow>
          (let entry = \<lparr>etype = ty, indent = ind, node = [length (blocks st)]\<rparr>
           in (entry, st\<lparr>blocks := blocks st @ [n], listStack := entry # listStack st\<rparr>))
      | Some par \<Rightarrow>
          (let entry = \<lparr>etype = ty, indent = ind, node = nestedPath (blocks st) (node par)\<rparr>
           in (entry, st\<lparr>blocks := updNode (node par) (nestInParent n) (blocks st),
                           listStack := entry # listStack st\<rparr>)))"

definition ensureListContext ::
    "listType \<Rightarrow> nat \<Rightarrow> enat option \<Rightarrow> pstate \<Rightarrow> listEntry \<times> pstate" where
  "ensureListContext ty ind start st =
     (let st1 = st\<lparr>listStack := popDeeper ind (listStack st)\<rparr> in
      case listStack st1 of
        [] \<Rightarrow> attachList ty ind start None st1
      | current # below \<Rightarrow>
          if indent current = ind \<and> etype current = ty then (current, st1)
          else if indent current < ind then attachList ty ind start (Some current) st1
          else if indent current = ind
          then attachList ty ind start (case below of [] \<Rightarrow> None | par # _ \<Rightarrow> Some par)
                 (st1\<lparr>listStack := below\<rparr>)
          else attachList ty ind start None st1)"

text \<open>
  A list item line: \<^verbatim>\<open>ensureListContext\<close>, then
  \<^verbatim>\<open>entry.node.content.push({type: "listItem", content: [buildParagraph(text)]})\<close>.
\<close>

definition addListItem :: "listType \<Rightarrow> nat \<Rightarrow> enat option \<Rightarrow> string \<Rightarrow> pstate \<Rightarrow> pstate" where
  "addListItem ty ind start text st =
     (case ensureListContext ty ind start st of
        (entry, st1) \<Rightarrow>
          st1\<lparr>blocks := updNode (node entry) (pushItem (ListItem [buildParagraph text])) (blocks st1)\<rparr>)"

text \<open>
  \<^verbatim>\<open>appendContinuationToListItem\<close>, as the change it makes to the list node of the
  entry: an item with an empty paragraph is pushed to a list without items, an empty
  paragraph is put in front of a last item that does not start with a paragraph, and the
  tokenized line replaces the placeholder of that paragraph or follows its content after
  a hard break. The two insertions stay when the line has no inline content.
\<close>

definition hasPlaceholder :: "inline list \<Rightarrow> bool" where
  "hasPlaceholder c = (case c of [Text t m] \<Rightarrow> t = [] | _ \<Rightarrow> False)"

definition appendToParagraph :: "inline list \<Rightarrow> inline list \<Rightarrow> inline list" where
  "appendToParagraph inl c =
     (if inl = [] then c
      else if hasPlaceholder c then inl
      else c @ [HardBreak] @ inl)"

definition continueItem :: "string \<Rightarrow> listItem \<Rightarrow> listItem" where
  "continueItem line item =
     (let inl = parseMarkdownInline (trim line) in
      case itemContent item of
        Paragraph c # others \<Rightarrow> ListItem (Paragraph (appendToParagraph inl c) # others)
      | other \<Rightarrow> ListItem (Paragraph (appendToParagraph inl (buildParagraphContent [])) # other))"

definition continueList :: "string \<Rightarrow> block \<Rightarrow> block" where
  "continueList line n =
     (case listContent n of
        None \<Rightarrow> n
      | Some items0 \<Rightarrow>
          (let items1 = (if items0 = [] then [ListItem [buildParagraph []]] else items0)
           in setListContent (butlast items1 @ [continueItem line (last items1)]) n))"

definition appendContinuationToListItem :: "listEntry \<Rightarrow> string \<Rightarrow> pstate \<Rightarrow> pstate" where
  "appendContinuationToListItem entry line st =
     st\<lparr>blocks := updNode (node entry) (continueList line) (blocks st)\<rparr>"

text \<open>The end of \<^verbatim>\<open>parseMarkdownBlocks\<close>, after the loop.\<close>

definition finishBlocks :: "pstate \<Rightarrow> block list" where
  "finishBlocks st =
     (let st1 = flushListStack (flushParagraph st) in
      if blocks st1 = [] then [buildParagraph []] else blocks st1)"

section \<open>The block loop\<close>

text \<open>
  The size of the lines still to be read, each counted with its line break; the block
  loop and its call of \<^verbatim>\<open>parseMarkdownBlocks\<close> on the text of a quote both decrease it.
\<close>

definition linesSize :: "string list \<Rightarrow> nat" where
  "linesSize ls = sum_list (map (\<lambda>l. Suc (length l)) ls)"

lemma linesSize_simps [simp]:
  "linesSize [] = 0" "linesSize (l # ls) = Suc (length l) + linesSize ls"
  "linesSize (xs @ ys) = linesSize xs + linesSize ys"
  by (simp_all add: linesSize_def)

lemma splitOn_nonempty: "splitOn c s \<noteq> []"
  by (induction s) (auto simp: Let_def split: list.splits)

lemma linesSize_splitOn: "linesSize (splitOn c s) = Suc (length s)"
proof (induction s)
  case Nil
  show ?case by simp
next
  case (Cons x xs)
  then show ?case
    using splitOn_nonempty [of c xs]
    by (cases "splitOn c xs") (auto simp: Let_def)
qed

lemma length_replaceCRLF: "length (replaceCRLF s) \<le> length s"
  by (induction s rule: replaceCRLF.induct) auto

lemma length_joinWith: "qs \<noteq> [] \<Longrightarrow> Suc (length (joinWith [c] qs)) = linesSize qs"
  by (induction "[c]" qs rule: joinWith.induct) auto

lemma linesSize_dropWhile: "linesSize (dropWhile P ls) \<le> linesSize ls"
  by (induction ls) auto

lemma linesSize_takeWhile: "linesSize (takeWhile P ls) \<le> linesSize ls"
  by (induction ls) auto

lemma linesSize_drop: "linesSize (drop n ls) \<le> linesSize ls"
  by (induction ls arbitrary: n) (auto simp: drop_Cons split: nat.splits intro: le_SucI trans_le_add2)

lemma linesSize_tl: "linesSize (tl ls) \<le> linesSize ls"
  by (cases ls) auto

lemma stripQuote_shorter: "isQuoteLine l \<Longrightarrow> length (stripQuote l) < length l"
proof -
  assume q: "isQuoteLine l"
  have le: "length (dropWhile isSpace l) \<le> length l" by (rule length_dropWhile_le)
  from q obtain r where r: "dropWhile isSpace l = CHR ''>'' # r"
    by (auto simp: isQuoteLine_def split: list.splits)
  then have "length (stripQuote l) \<le> length r"
    by (auto simp: stripQuote_def split: list.splits)
  with le r show ?thesis by simp
qed

lemma case_head_iff: "(case xs of [] \<Rightarrow> False | c # r \<Rightarrow> c = a) \<longleftrightarrow> (\<exists>r. xs = a # r)"
  by (cases xs) auto

lemma isQuoteLine_iff: "isQuoteLine l \<longleftrightarrow> (\<exists>r. dropWhile isSpace l = CHR ''>'' # r)"
  unfolding isQuoteLine_def by (rule case_head_iff)

lemma dropWhile_rev_prefix: "\<exists>zs. l = rev (dropWhile P (rev l)) @ zs \<and> (\<forall>z\<in>set zs. P z)"
proof -
  have "rev l = takeWhile P (rev l) @ dropWhile P (rev l)" by simp
  then have "l = rev (dropWhile P (rev l)) @ rev (takeWhile P (rev l))"
    by (metis rev_append rev_rev_ident)
  moreover have "\<forall>z\<in>set (rev (takeWhile P (rev l))). P z"
    by (auto dest: set_takeWhileD)
  ultimately show ?thesis by blast
qed

lemma isQuoteLine_trimEnd: "isQuoteLine (trimEnd l) \<Longrightarrow> isQuoteLine l"
proof -
  assume q: "isQuoteLine (trimEnd l)"
  obtain zs where l: "l = trimEnd l @ zs"
    using dropWhile_rev_prefix [of l isSpace] by (auto simp: trimEnd_def)
  from q obtain r where r: "dropWhile isSpace (trimEnd l) = CHR ''>'' # r"
    by (auto simp: isQuoteLine_iff)
  then have "dropWhile isSpace (trimEnd l) \<noteq> []" by simp
  then obtain x where "x \<in> set (trimEnd l)" "\<not> isSpace x"
    by auto
  then have "dropWhile isSpace (trimEnd l @ zs) = dropWhile isSpace (trimEnd l) @ zs"
    by simp
  with l r have "dropWhile isSpace l = CHR ''>'' # (r @ zs)" by simp
  then show ?thesis by (auto simp: isQuoteLine_iff)
qed

lemma linesSize_map_stripQuote:
  "\<forall>l\<in>set qs. isQuoteLine l \<Longrightarrow> linesSize (map stripQuote qs) + length qs \<le> linesSize qs"
proof (induction qs)
  case Nil
  show ?case by simp
next
  case (Cons q qs)
  then have "length (stripQuote q) < length q" by (simp add: stripQuote_shorter)
  with Cons show ?case by simp
qed

lemma quote_text_shorter:
  assumes "isQuoteLine rawLine"
  shows "Suc (Suc (length (joinWith [LF] (map stripQuote (takeWhile isQuoteLine (rawLine # rest))))))
         \<le> linesSize (rawLine # rest)"
proof -
  let ?qs = "takeWhile isQuoteLine (rawLine # rest)"
  have ne: "?qs \<noteq> []" using assms by simp
  then have "Suc (length (joinWith [LF] (map stripQuote ?qs))) = linesSize (map stripQuote ?qs)"
    by (simp add: length_joinWith)
  moreover have "linesSize (map stripQuote ?qs) + length ?qs \<le> linesSize ?qs"
    by (rule linesSize_map_stripQuote) (auto dest: set_takeWhileD)
  moreover have "length ?qs \<ge> 1" using ne by (cases ?qs) auto
  moreover have "linesSize ?qs \<le> linesSize (rawLine # rest)" by (rule linesSize_takeWhile)
  ultimately show ?thesis by linarith
qed

text \<open>
  The \<^verbatim>\<open>for\<close> loop of \<^verbatim>\<open>parseMarkdownBlocks\<close> from the line \<^verbatim>\<open>lines[i]\<close> on: the
  second argument holds the lines \<^verbatim>\<open>lines[i]\<close>, \<^verbatim>\<open>lines[i + 1]\<close>, ... and each branch
  continues with the lines after those it has read. The code block branch skips the
  closing fence; the table and quote branches continue at \<^verbatim>\<open>cursor\<close>. The quote branch
  collects its lines from \<^verbatim>\<open>lines[i]\<close> itself, not from the trimmed \<^verbatim>\<open>line\<close>.
\<close>

function parseLines :: "pstate \<Rightarrow> string list \<Rightarrow> pstate"
  and parseMarkdownBlocks :: "string \<Rightarrow> block list" where
  "parseLines st [] = st"
| "parseLines st (rawLine # rest) =
     (let line = trimEnd rawLine; trimmed = trim line in
      if trimmed = [] then parseLines (flushListStack (flushParagraph st)) rest
      else (case codeFenceStart trimmed of
        Some language \<Rightarrow>
          parseLines
            (pushBlock
               (CodeBlock language
                  [Text (joinWith [LF] (takeWhile (\<lambda>l. \<not> isCodeFenceEnd l) rest)) None])
               (flushListStack (flushParagraph st)))
            (drop 1 (dropWhile (\<lambda>l. \<not> isCodeFenceEnd l) rest))
      | None \<Rightarrow>
          if isTableStart trimmed rest
          then parseLines
                 (pushBlock
                    (buildTableNode trimmed (map trim (takeWhile isTableBodyRow (tl rest))))
                    (flushListStack (flushParagraph st)))
                 (dropWhile isTableBodyRow (tl rest))
          else if isQuoteLine line
          then parseLines
                 (pushBlock
                    (Blockquote
                       (parseMarkdownBlocks
                          (joinWith [LF] (map stripQuote (takeWhile isQuoteLine (rawLine # rest))))))
                    (flushListStack (flushParagraph st)))
                 (dropWhile isQuoteLine (rawLine # rest))
          else (case headingMatch trimmed of
            Some (level, t) \<Rightarrow>
              parseLines
                (pushBlock (Heading level (parseMarkdownInline t))
                   (flushListStack (flushParagraph st)))
                rest
          | None \<Rightarrow>
              (case bulletMatch line of
                Some (ws, t) \<Rightarrow>
                  parseLines (addListItem Bullet (getLineIndent ws) None t (flushParagraph st)) rest
              | None \<Rightarrow>
                  (case orderedMatch line of
                    Some (ws, ds, t) \<Rightarrow>
                      parseLines
                        (addListItem Ordered (getLineIndent ws) (Some (Number ds)) t
                           (flushParagraph st))
                        rest
                  | None \<Rightarrow>
                      (case listStack st of
                        topEntry # _ \<Rightarrow>
                          if getLineIndent line > indent topEntry
                          then parseLines (appendContinuationToListItem topEntry line st) rest
                          else parseLines
                                 ((flushListStack st)
                                    \<lparr>paragraphLines := paragraphLines st @ [trimmed]\<rparr>)
                                 rest
                      | [] \<Rightarrow>
                          parseLines (st\<lparr>paragraphLines := paragraphLines st @ [trimmed]\<rparr>)
                            rest))))))"
| "parseMarkdownBlocks text =
     finishBlocks (parseLines initialState (splitOn LF (replaceCRLF text)))"
  by pat_completeness auto

lemma blocks_termination:
  "All parseLines_parseMarkdownBlocks_dom"
  apply (relation "measure (\<lambda>x. case x of
          Inl (st, ls) \<Rightarrow> 2 * linesSize ls
        | Inr text \<Rightarrow> 2 * length text + 3)")
             apply simp_all
  subgoal for rawLine rest
    using linesSize_dropWhile [of isTableBodyRow "tl rest"] linesSize_tl [of rest] by linarith
  subgoal for rawLine rest
    using quote_text_shorter [of rawLine rest] isQuoteLine_trimEnd [of rawLine] by simp
  subgoal for rawLine rest
    using isQuoteLine_trimEnd [of rawLine] linesSize_dropWhile [of isQuoteLine rest] by simp
  subgoal for rawLine rest
    using linesSize_drop [of "Suc 0" "dropWhile (\<lambda>l. \<not> isCodeFenceEnd l) rest"]
      linesSize_dropWhile [of "\<lambda>l. \<not> isCodeFenceEnd l" rest] by linarith
  subgoal for t
    using length_replaceCRLF [of t] by (simp add: linesSize_splitOn)
  done

termination parseLines
  by (rule blocks_termination)

declare parseLines.simps [simp del]
declare parseMarkdownBlocks.simps [simp del]

definition createTextADF :: "string \<Rightarrow> document" where
  "createTextADF text = \<lparr>version = 1, content = parseMarkdownBlocks text\<rparr>"

section \<open>Notions used to state the properties\<close>

text \<open>The cells of a table row and the rows of a table, to state properties of tables.\<close>

definition rowCells :: "tableRow \<Rightarrow> tableCell list" where
  "rowCells r = (case r of TableRow cs \<Rightarrow> cs)"

definition tableRows :: "block \<Rightarrow> tableRow list" where
  "tableRows b = (case b of Table n l rows \<Rightarrow> rows | _ \<Rightarrow> [])"

text \<open>
  The \<^verbatim>\<open>content\<close> arrays of inline nodes in a block, in document order, each with the
  kind of node that owns it: a paragraph, a heading or a code block.
\<close>

datatype contentOwner = InParagraph | InHeading | InCodeBlock

fun blockContents :: "block \<Rightarrow> (contentOwner \<times> inline list) list"
  and itemContents :: "listItem \<Rightarrow> (contentOwner \<times> inline list) list"
  and rowContents :: "tableRow \<Rightarrow> (contentOwner \<times> inline list) list"
  and cellContents :: "tableCell \<Rightarrow> (contentOwner \<times> inline list) list" where
  "blockContents (Paragraph c) = [(InParagraph, c)]"
| "blockContents (Heading level c) = [(InHeading, c)]"
| "blockContents (CodeBlock language c) = [(InCodeBlock, c)]"
| "blockContents (Blockquote bs) = concat (map blockContents bs)"
| "blockContents (BulletList items) = concat (map itemContents items)"
| "blockContents (OrderedList order items) = concat (map itemContents items)"
| "blockContents (Table n l rows) = concat (map rowContents rows)"
| "itemContents (ListItem bs) = concat (map blockContents bs)"
| "rowContents (TableRow cells) = concat (map cellContents cells)"
| "cellContents (TableHeader bs) = concat (map blockContents bs)"
| "cellContents (TableCell bs) = concat (map blockContents bs)"

definition documentContents :: "document \<Rightarrow> (contentOwner \<times> inline list) list" where
  "documentContents d = concat (map blockContents (content d))"

text \<open>
  A node as the tokenizer pushes it: a text node with a text that is not empty and with
  no \<^verbatim>\<open>marks\<close> or one mark. A well-formed paragraph holds the placeholder alone, or
  such nodes and hard breaks; a heading holds such nodes; a code block holds one text
  node without marks.
\<close>

fun tokenNode :: "inline \<Rightarrow> bool" where
  "tokenNode (Text t m) = (t \<noteq> [] \<and> (case m of None \<Rightarrow> True | Some ms \<Rightarrow> length ms = 1))"
| "tokenNode HardBreak = False"

fun goodInline :: "inline \<Rightarrow> bool" where
  "goodInline (Text t m) = tokenNode (Text t m)"
| "goodInline HardBreak = True"

fun goodContent :: "contentOwner \<times> inline list \<Rightarrow> bool" where
  "goodContent (InParagraph, c) = (c = [Text [] None] \<or> list_all goodInline c)"
| "goodContent (InHeading, c) = list_all goodInline c"
| "goodContent (InCodeBlock, c) = (case c of [Text t None] \<Rightarrow> True | _ \<Rightarrow> False)"

fun wfBlock :: "block \<Rightarrow> bool"
  and wfItem :: "listItem \<Rightarrow> bool"
  and wfRow :: "tableRow \<Rightarrow> bool"
  and wfCell :: "tableCell \<Rightarrow> bool" where
  "wfBlock (Paragraph c) = goodContent (InParagraph, c)"
| "wfBlock (Heading level c) = goodContent (InHeading, c)"
| "wfBlock (CodeBlock language c) = goodContent (InCodeBlock, c)"
| "wfBlock (Blockquote bs) = list_all wfBlock bs"
| "wfBlock (BulletList items) = list_all wfItem items"
| "wfBlock (OrderedList order items) = list_all wfItem items"
| "wfBlock (Table n l rows) = list_all wfRow rows"
| "wfItem (ListItem bs) = list_all wfBlock bs"
| "wfRow (TableRow cells) = list_all wfCell cells"
| "wfCell (TableHeader bs) = list_all wfBlock bs"
| "wfCell (TableCell bs) = list_all wfBlock bs"

text \<open>A state whose blocks are all well formed.\<close>

definition wfState :: "pstate \<Rightarrow> bool" where
  "wfState st = list_all wfBlock (blocks st)"

text \<open>
  An inline node with no \<^verbatim>\<open>marks\<close> array or one of length one; a text node with empty
  text; a text node with a text that is not empty.
\<close>

fun atMostOneMark :: "inline \<Rightarrow> bool" where
  "atMostOneMark (Text t m) = (case m of None \<Rightarrow> True | Some ms \<Rightarrow> length ms = 1)"
| "atMostOneMark HardBreak = True"

fun emptyText :: "inline \<Rightarrow> bool" where
  "emptyText (Text t m) = (t = [])"
| "emptyText HardBreak = False"

fun nonEmptyText :: "inline \<Rightarrow> bool" where
  "nonEmptyText (Text t m) = (t \<noteq> [])"
| "nonEmptyText HardBreak = False"


text \<open>
  The change that an update at the path \<open>p @ [j, k]\<close> makes to the list node at \<open>p\<close>.
\<close>

definition updChild :: "nat \<Rightarrow> nat \<Rightarrow> (block \<Rightarrow> block) \<Rightarrow> block \<Rightarrow> block" where
  "updChild j k g n =
     (case listContent n of
        None \<Rightarrow> n
      | Some items \<Rightarrow>
          if j < length items
          then setListContent (items[j := ListItem (updNode [k] g (itemContent (items ! j)))]) n
          else n)"

text \<open>The kind of a list node.\<close>

fun listKind :: "block \<Rightarrow> listType option" where
  "listKind (BulletList items) = Some Bullet"
| "listKind (OrderedList order items) = Some Ordered"
| "listKind b = None"

text \<open>
  An entry of the stack is valid in a tree when its path denotes a list node of the kind
  of the entry that has an item. A stack is in order when every entry is valid, the
  bottom entry denotes a block of \<^verbatim>\<open>blocks\<close>, and the path of every other entry extends
  the path of the entry below it by an item index and a content index.
\<close>

definition validEntry :: "block list \<Rightarrow> listEntry \<Rightarrow> bool" where
  "validEntry bs e =
     (case getNode bs (node e) of
        None \<Rightarrow> False
      | Some n \<Rightarrow>
          listKind n = Some (etype e)
          \<and> (case listContent n of None \<Rightarrow> False | Some items \<Rightarrow> items \<noteq> []))"

fun stackOK :: "block list \<Rightarrow> listEntry list \<Rightarrow> bool" where
  "stackOK bs [] = True"
| "stackOK bs [e] = (validEntry bs e \<and> length (node e) = 1)"
| "stackOK bs (e # par # es) =
     (validEntry bs e
      \<and> length (node e) = length (node par) + 2
      \<and> take (length (node par)) (node e) = node par
      \<and> stackOK bs (par # es))"

definition stateOK :: "pstate \<Rightarrow> bool" where
  "stateOK st = stackOK (blocks st) (listStack st)"


text \<open>
  The list nodes of a tree keep their paths while the loop runs, because the loop only
  appends to content arrays, with one exception: a continuation line puts an empty
  paragraph in front of an item that does not start with a paragraph. Every item the
  loop makes starts with a paragraph, in lists at every depth: this is \<open>itemsOK\<close>, and
  \<open>treeOK\<close> for the blocks of a state.
\<close>

fun startsWithParagraph :: "block list \<Rightarrow> bool" where
  "startsWithParagraph (Paragraph c # bs) = True"
| "startsWithParagraph bs = False"

fun itemsOK :: "block \<Rightarrow> bool"
  and itemOK :: "listItem \<Rightarrow> bool" where
  "itemsOK (BulletList items) = list_all itemOK items"
| "itemsOK (OrderedList order items) = list_all itemOK items"
| "itemsOK b = True"
| "itemOK (ListItem bs) = (startsWithParagraph bs \<and> list_all itemsOK bs)"






section \<open>Properties of the inline tokenizer\<close>

lemma notSpecial_stripPrefix:
  "\<not> isSpecialAt s \<Longrightarrow> d \<in> {''~~'', ''**'', ''*'', ''__'', ''_'', ''`'', ''[''} \<Longrightarrow>
   stripPrefix d s = None"
  by (cases s; cases "tl s") (auto split: list.splits)

lemma notSpecial_matchFirstPattern: "\<not> isSpecialAt s \<Longrightarrow> matchFirstPattern s = None"
  by (simp add: matchFirstPattern_def matchDelimited_def matchLink_def notSpecial_stripPrefix)

lemma searchSpecial_None_head: "searchSpecial s = None \<Longrightarrow> \<not> isSpecialAt s"
  by (cases s) (auto split: if_splits)

text \<open>
  A string without star, underscore, backquote, bracket and tilde has no position where
  the search pattern of the tokenizer matches.
\<close>

lemma noSpecialChars_searchSpecial:
  "set s \<inter> set ''*_`[]~'' = {} \<Longrightarrow> searchSpecial s = None"
  by (induction s) (auto split: list.splits)

text \<open>
  Claim C9, amended. A string that is not empty and in which the search pattern
  \<^verbatim>\<open>/~~|\*\*|\*|__|_|`|\[|\]/\<close> of the tokenizer matches nowhere (so, a string without
  delimiter characters) is tokenized into exactly one text node without marks, whose
  text is the string.
\<close>

theorem plain_text_single_node:
  "s \<noteq> [] \<Longrightarrow> searchSpecial s = None \<Longrightarrow> parseMarkdownInline s = [Text s None]"
  by (simp add: parseMarkdownInline_def inlineLoop.simps [of "[]" s]
      notSpecial_matchFirstPattern searchSpecial_None_head)

text \<open>The theorem at a text with parentheses and a single tilde.\<close>

theorem plain_text_single_node_witness:
  "''a (b) ~c'' \<noteq> [] \<and> searchSpecial ''a (b) ~c'' = None
   \<and> parseMarkdownInline ''a (b) ~c'' = [Text ''a (b) ~c'' None]"
  using plain_text_single_node [of "''a (b) ~c''"] by simp

text \<open>
  Without the condition that the string is not empty the statement fails: the empty
  string has no delimiter, and the loop of the tokenizer is not entered, so that no node
  is returned. The empty string is the text of the placeholder node of an empty
  paragraph.
\<close>

theorem plain_text_empty_counterexample:
  "searchSpecial [] = None \<and> parseMarkdownInline [] \<noteq> [Text [] None]"
  by (simp add: parseMarkdownInline_def inlineLoop.simps)

section \<open>Properties of the block segmenter\<close>

lemma finishBlocks_nonempty: "finishBlocks st \<noteq> []"
  by (simp add: finishBlocks_def Let_def)

text \<open>
  Claim C2. \<^verbatim>\<open>parseMarkdownBlocks\<close> never returns an empty array, and for the empty
  string it returns one paragraph holding one text node with empty text and no marks.
\<close>

theorem parseMarkdownBlocks_nonempty:
  "parseMarkdownBlocks text \<noteq> [] \<and> parseMarkdownBlocks [] = [Paragraph [Text [] None]]"
proof
  show "parseMarkdownBlocks text \<noteq> []"
    by (simp add: parseMarkdownBlocks.simps finishBlocks_nonempty)
  show "parseMarkdownBlocks [] = [Paragraph [Text [] None]]"
    by code_simp
qed

text \<open>
  Claim C3, amended. In the table built from a header line and body lines, the header
  row has as many cells as the split of the header line, and every body row has as many
  cells as the split of its own line: the width of a body row is not compared with the
  width of the header.
\<close>

theorem buildTableNode_row_widths:
  "map (length \<circ> rowCells) (tableRows (buildTableNode headerLine bodyLines)) =
     length (splitTableRow headerLine) # map (length \<circ> splitTableRow) bodyLines"
  by (simp add: buildTableNode_def tableRows_def rowCells_def Let_def comp_def)

text \<open>
  A body row of three cells under a header of two: the table has rows of two and of
  three cells, so not every row has the cell count of the header.
\<close>

theorem ragged_table_counterexample:
  "map (map (length \<circ> rowCells) \<circ> tableRows) (parseMarkdownBlocks ''a|b\<newline>---|---\<newline>1|2|3'')
     = [[2, 3]]
   \<and> length (splitTableRow ''a|b'') = 2"
  by code_simp

section \<open>The inline content of a document\<close>

lemma wf_contents:
  "wfBlock b \<Longrightarrow> list_all goodContent (blockContents b)"
  "wfItem i \<Longrightarrow> list_all goodContent (itemContents i)"
  "wfRow r \<Longrightarrow> list_all goodContent (rowContents r)"
  "wfCell c \<Longrightarrow> list_all goodContent (cellContents c)"
  by (induction b and i and r and c rule: blockContents_itemContents_rowContents_cellContents.induct)
     (auto simp: list_all_iff)

lemma matchFirstPattern_tokenNode:
  "matchFirstPattern s = Some (n, rest) \<Longrightarrow> tokenNode n"
  unfolding matchFirstPattern_def
  by (auto split: option.splits dest: matchDelimited_shorter(2) matchLink_shorter(2))

lemma searchSpecial_less: "searchSpecial s = Some k \<Longrightarrow> k < length s"
  by (induction s arbitrary: k) (auto split: if_splits)

lemma inlineLoop_tokenNode:
  "list_all tokenNode nodes \<Longrightarrow> list_all tokenNode (inlineLoop nodes s)"
proof (induction nodes s rule: inlineLoop.induct)
  case (1 nodes remaining)
  show ?case
  proof (cases "remaining = []")
    case True
    then show ?thesis using "1.prems" by (simp add: inlineLoop.simps)
  next
    case ne: False
    then have hd: "tokenNode (Text [hd remaining] None)" by simp
    show ?thesis
    proof (cases "matchFirstPattern remaining")
      case (Some a)
      obtain n rest where a: "a = (n, rest)" by (cases a)
      have "tokenNode n" using Some a by (simp add: matchFirstPattern_tokenNode)
      then have "list_all tokenNode (inlineLoop (nodes @ [n]) rest)"
        using "1.IH"(3) ne Some a "1.prems" by simp
      then show ?thesis using ne Some a by (subst inlineLoop.simps) simp
    next
      case None
      show ?thesis
      proof (cases "searchSpecial remaining")
        case n2: None
        then show ?thesis using ne None "1.prems" by (subst inlineLoop.simps) simp
      next
        case (Some k)
        show ?thesis
        proof (cases "k = 0")
          case True
          then show ?thesis
            using ne None Some "1.IH"(1) "1.prems"
            by (subst inlineLoop.simps) simp
        next
          case False
          then have "tokenNode (Text (take k remaining) None)" using ne by simp
          then show ?thesis
            using False ne None Some "1.IH"(2) "1.prems"
            by (subst inlineLoop.simps) simp
        qed
      qed
    qed
  qed
qed

lemma parseMarkdownInline_tokenNode: "list_all tokenNode (parseMarkdownInline s)"
  unfolding parseMarkdownInline_def by (rule inlineLoop_tokenNode) simp

lemma tokenNode_goodInline: "tokenNode n \<Longrightarrow> goodInline n"
  by (cases n) auto

lemma parseMarkdownInline_good: "list_all goodInline (parseMarkdownInline s)"
  using parseMarkdownInline_tokenNode [of s] by (auto simp: list_all_iff tokenNode_goodInline)

lemma buildParagraphContent_good: "goodContent (InParagraph, buildParagraphContent t)"
  by (simp add: buildParagraphContent_def Let_def parseMarkdownInline_good)

lemma wfBlock_buildParagraph: "wfBlock (buildParagraph t)"
  using buildParagraphContent_good by (simp add: buildParagraph_def)

lemma wfBlock_toParagraph: "wfBlock (toParagraph t)"
  by (simp add: toParagraph_def Let_def parseMarkdownInline_good)

lemma wfBlock_buildTableNode: "wfBlock (buildTableNode h body)"
  by (simp add: buildTableNode_def Let_def list_all_iff wfBlock_toParagraph)

lemma list_all_update: "list_all P xs \<Longrightarrow> P y \<Longrightarrow> list_all P (xs[i := y])"
  by (auto simp: list_all_iff dest: set_update_subset_insert [THEN subsetD])

lemma wf_setListContent:
  "list_all wfItem items \<Longrightarrow> wfBlock n \<Longrightarrow> wfBlock (setListContent items n)"
  by (cases n) auto

lemma wf_listContent: "wfBlock n \<Longrightarrow> listContent n = Some items \<Longrightarrow> list_all wfItem items"
  by (cases n) auto

lemma wf_itemContent: "wfItem i \<Longrightarrow> list_all wfBlock (itemContent i)"
  by (cases i) auto

lemma wf_updNode:
  "list_all wfBlock bs \<Longrightarrow> (\<And>b. wfBlock b \<Longrightarrow> wfBlock (f b)) \<Longrightarrow> list_all wfBlock (updNode p f bs)"
proof (induction p f bs rule: updNode.induct)
  case (1 f bs)
  then show ?case by simp
next
  case (2 i f bs)
  show ?case
  proof (cases "i < length bs")
    case True
    then have "wfBlock (f (bs ! i))" using 2 by (simp add: list_all_length)
    then show ?thesis using True "2.prems"(1) by (simp add: list_all_update)
  next
    case False
    then show ?thesis using 2 by simp
  qed
next
  case (3 i j p f bs)
  show ?case
  proof (cases "i < length bs")
    case False
    then show ?thesis using 3 by simp
  next
    case i: True
    then have wfi: "wfBlock (bs ! i)" using "3.prems"(1) by (simp add: list_all_length)
    show ?thesis
    proof (cases "listContent (bs ! i)")
      case None
      then show ?thesis using 3 i by simp
    next
      case (Some items)
      show ?thesis
      proof (cases "j < length items")
        case False
        then show ?thesis using 3 i Some by simp
      next
        case j: True
        have its: "list_all wfItem items" using wfi Some by (rule wf_listContent)
        then have "wfItem (items ! j)" using j by (simp add: list_all_length)
        then have "list_all wfBlock (itemContent (items ! j))" by (rule wf_itemContent)
        then have "list_all wfBlock (updNode p f (itemContent (items ! j)))"
          using "3.IH" [OF i Some j] "3.prems"(2) by blast
        then have "list_all wfItem (items[j := ListItem (updNode p f (itemContent (items ! j)))])"
          using its by (intro list_all_update) simp_all
        then have "wfBlock (setListContent
            (items[j := ListItem (updNode p f (itemContent (items ! j)))]) (bs ! i))"
          using wfi by (rule wf_setListContent)
        then show ?thesis using i Some j "3.prems"(1) by (simp add: list_all_update)
      qed
    qed
  qed
qed

lemma wf_butlast: "list_all P xs \<Longrightarrow> list_all P (butlast xs)"
  by (auto simp: list_all_iff dest: in_set_butlastD)

lemma wf_last: "list_all P xs \<Longrightarrow> xs \<noteq> [] \<Longrightarrow> P (last xs)"
  by (auto simp: list_all_iff)

lemma wf_pushItem: "wfItem item \<Longrightarrow> wfBlock n \<Longrightarrow> wfBlock (pushItem item n)"
  by (cases n) (auto simp: pushItem_def)

lemma wf_placeholder_items:
  "list_all wfItem items0 \<Longrightarrow>
   list_all wfItem (if items0 = [] then [ListItem [buildParagraph []]] else items0)"
  by (simp add: wfBlock_buildParagraph)

lemma wf_nestInParent:
  assumes "wfBlock n" "wfBlock parentNode"
  shows "wfBlock (nestInParent n parentNode)"
proof (cases "listContent parentNode")
  case None
  then show ?thesis using assms by (simp add: nestInParent_def)
next
  case (Some items0)
  define items1 where "items1 = (if items0 = [] then [ListItem [buildParagraph []]] else items0)"
  have ne: "items1 \<noteq> []" by (simp add: items1_def)
  have w1: "list_all wfItem items1"
    unfolding items1_def using wf_listContent [OF assms(2) Some] by (rule wf_placeholder_items)
  then have "wfItem (last items1)" using ne by (rule wf_last)
  then have "list_all wfBlock (itemContent (last items1) @ [n])"
    using assms(1) by (simp add: wf_itemContent)
  then have "list_all wfItem (butlast items1 @ [ListItem (itemContent (last items1) @ [n])])"
    using wf_butlast [OF w1] by simp
  then show ?thesis
    using Some assms(2) by (simp add: nestInParent_def items1_def [symmetric] wf_setListContent)
qed

lemma good_appendToParagraph:
  assumes "list_all goodInline inl" "goodContent (InParagraph, c)"
  shows "goodContent (InParagraph, appendToParagraph inl c)"
proof (cases "inl = [] \<or> hasPlaceholder c")
  case True
  then show ?thesis using assms by (auto simp: appendToParagraph_def)
next
  case False
  then have "c \<noteq> [Text [] None]" by (auto simp: hasPlaceholder_def)
  then have "list_all goodInline c" using assms(2) by simp
  then show ?thesis using False assms(1) by (simp add: appendToParagraph_def)
qed

lemma wf_continueItem:
  assumes "wfItem item"
  shows "wfItem (continueItem line item)"
proof -
  have inl: "list_all goodInline (parseMarkdownInline (trim line))"
    by (rule parseMarkdownInline_good)
  have c: "list_all wfBlock (itemContent item)" using assms by (rule wf_itemContent)
  show ?thesis
  proof (cases "itemContent item")
    case Nil
    then show ?thesis
      using good_appendToParagraph [OF inl buildParagraphContent_good]
      by (simp add: continueItem_def Let_def)
  next
    case (Cons b others)
    then show ?thesis
      using c good_appendToParagraph [OF inl buildParagraphContent_good]
        good_appendToParagraph [OF inl]
      by (cases b) (simp_all add: continueItem_def Let_def)
  qed
qed

lemma wf_continueList:
  assumes "wfBlock n"
  shows "wfBlock (continueList line n)"
proof (cases "listContent n")
  case None
  then show ?thesis using assms by (simp add: continueList_def)
next
  case (Some items0)
  define items1 where "items1 = (if items0 = [] then [ListItem [buildParagraph []]] else items0)"
  have ne: "items1 \<noteq> []" by (simp add: items1_def)
  have w1: "list_all wfItem items1"
    unfolding items1_def using wf_listContent [OF assms Some] by (rule wf_placeholder_items)
  then have "wfItem (last items1)" using ne by (rule wf_last)
  then have "wfItem (continueItem line (last items1))" by (rule wf_continueItem)
  then have "list_all wfItem (butlast items1 @ [continueItem line (last items1)])"
    using wf_butlast [OF w1] by simp
  then show ?thesis
    using Some assms by (simp add: continueList_def items1_def [symmetric] wf_setListContent)
qed

lemma wfState_pushBlock: "wfState st \<Longrightarrow> wfBlock b \<Longrightarrow> wfState (pushBlock b st)"
  by (simp add: wfState_def pushBlock_def)

lemma wfState_flushParagraph: "wfState st \<Longrightarrow> wfState (flushParagraph st)"
  by (simp add: wfState_def flushParagraph_def pushBlock_def Let_def wfBlock_buildParagraph)

lemma wfState_flushListStack: "wfState st \<Longrightarrow> wfState (flushListStack st)"
  by (simp add: wfState_def flushListStack_def)

lemma wfState_paragraphLines: "wfState st \<Longrightarrow> wfState (st\<lparr>paragraphLines := ls\<rparr>)"
  by (simp add: wfState_def)

lemma wfState_listStack: "wfState st \<Longrightarrow> wfState (st\<lparr>listStack := ls\<rparr>)"
  by (simp add: wfState_def)

lemma wfBlock_createListNode: "wfBlock (createListNode ty start)"
  by (cases ty) (simp_all add: createListNode_def)

lemma wfState_attachList:
  "wfState st \<Longrightarrow> wfState (snd (attachList ty ind start parent st))"
  by (cases parent)
     (simp_all add: attachList_def Let_def wfState_def wfBlock_createListNode
        wf_updNode wf_nestInParent)

lemma wfState_ensureListContext:
  "wfState st \<Longrightarrow> wfState (snd (ensureListContext ty ind start st))"
  by (simp add: ensureListContext_def Let_def wfState_attachList wfState_listStack
      split: list.splits)

lemma wfState_addListItem: "wfState st \<Longrightarrow> wfState (addListItem ty ind start t st)"
proof -
  assume "wfState st"
  then have "wfState (snd (ensureListContext ty ind start st))"
    by (rule wfState_ensureListContext)
  then show ?thesis
    by (cases "ensureListContext ty ind start st")
       (simp add: addListItem_def wfState_def wf_updNode wf_pushItem wfBlock_buildParagraph)
qed

lemma wfState_appendContinuation:
  "wfState st \<Longrightarrow> wfState (appendContinuationToListItem e line st)"
  by (simp add: appendContinuationToListItem_def wfState_def wf_updNode wf_continueList)

lemma wf_finishBlocks: "wfState st \<Longrightarrow> list_all wfBlock (finishBlocks st)"
  using wfState_flushListStack [OF wfState_flushParagraph, of st]
  by (simp add: finishBlocks_def Let_def wfBlock_buildParagraph wfState_def)

lemma wfState_initial: "wfState initialState"
  by (simp add: wfState_def initialState_def)

lemma wf_parse:
  "wfState st \<Longrightarrow> wfState (parseLines st ls)"
  "list_all wfBlock (parseMarkdownBlocks t)"
proof (induction st ls and t rule: parseLines_parseMarkdownBlocks.induct)
  case (1 st)
  then show ?case by (simp add: parseLines.simps)
next
  case (2 st rawLine rest)
  note wf = wfState_flushListStack wfState_flushParagraph wfState_pushBlock
    wfState_addListItem wfState_appendContinuation wfState_paragraphLines
  show ?case
    using "2.prems" "2.IH"
    by (subst parseLines.simps)
       (auto simp: Let_def wf wfBlock_buildTableNode parseMarkdownInline_good
          split: option.splits list.splits)
next
  case (3 t)
  then show ?case
    by (simp add: parseMarkdownBlocks.simps wf_finishBlocks wfState_initial)
qed

section \<open>Marks and empty text nodes\<close>

lemma list_all_imp: "list_all P xs \<Longrightarrow> (\<And>x. P x \<Longrightarrow> Q x) \<Longrightarrow> list_all Q xs"
  by (auto simp: list_all_iff)

lemma goodInline_atMostOneMark: "goodInline n \<Longrightarrow> atMostOneMark n"
  by (cases n) auto

lemma goodInline_not_emptyText: "goodInline n \<Longrightarrow> \<not> emptyText n"
  by (cases n) auto

lemma goodContent_marks: "goodContent oc \<Longrightarrow> list_all atMostOneMark (snd oc)"
  by (cases oc rule: goodContent.cases)
     (auto simp: list_all_iff goodInline_atMostOneMark split: list.splits inline.splits option.splits)

lemma goodContent_emptyText:
  "goodContent oc \<Longrightarrow>
   list_all (\<lambda>n. \<not> emptyText n) (snd oc) \<or> (snd oc = [Text [] None] \<and> fst oc \<noteq> InHeading)"
  by (cases oc rule: goodContent.cases)
     (auto simp: list_all_iff goodInline_not_emptyText split: list.splits inline.splits option.splits)

lemma documentContents_good: "list_all goodContent (documentContents (createTextADF t))"
  using wf_parse(2) [of t] wf_contents(1)
  by (auto simp: documentContents_def createTextADF_def list_all_iff)

text \<open>
  Claim C8. In the document made from any text, every inline node of every content
  array (of a paragraph, a heading or a code block, at any depth of lists, quotes and
  tables) has no \<^verbatim>\<open>marks\<close> array or one of length one; the same holds for the nodes the
  tokenizer returns for any string.
\<close>

theorem text_nodes_at_most_one_mark:
  "list_all (\<lambda>oc. list_all atMostOneMark (snd oc)) (documentContents (createTextADF text))
   \<and> list_all atMostOneMark (parseMarkdownInline s)"
proof
  show "list_all (\<lambda>oc. list_all atMostOneMark (snd oc)) (documentContents (createTextADF text))"
    using documentContents_good [of "text"] by (rule list_all_imp) (rule goodContent_marks)
  show "list_all atMostOneMark (parseMarkdownInline s)"
    using parseMarkdownInline_good [of s] by (rule list_all_imp) (rule goodInline_atMostOneMark)
qed

text \<open>
  The theorem at a text where emphasis lies inside strong delimiters: the first star is
  taken as plain text, and each of the two marked nodes has a single mark.
\<close>

theorem text_nodes_at_most_one_mark_witness:
  "documentContents (createTextADF ''**a *b* c**'') =
     [(InParagraph, [Text ''*'' None, Text ''a '' (Some [Em]), Text ''b'' None,
                     Text '' c'' (Some [Em]), Text ''*'' None])]
   \<and> list_all (\<lambda>oc. list_all atMostOneMark (snd oc)) (documentContents (createTextADF ''**a *b* c**''))
   \<and> list_all atMostOneMark (parseMarkdownInline ''~~x~~'')"
proof -
  have "documentContents (createTextADF ''**a *b* c**'') =
     [(InParagraph, [Text ''*'' None, Text ''a '' (Some [Em]), Text ''b'' None,
                     Text '' c'' (Some [Em]), Text ''*'' None])]"
    by code_simp
  then show ?thesis
    using text_nodes_at_most_one_mark [of "''**a *b* c**''" "''~~x~~''"] by simp
qed

text \<open>
  Claim C10, amended. Every node the tokenizer returns is a text node whose text is not
  empty. In the document made from any text, a content array that holds a text node
  with empty text holds nothing else, that node has no marks, and the array belongs to
  a paragraph (the placeholder of \<^verbatim>\<open>buildParagraph\<close> and of the table cells) or to a code
  block (whose body is empty), never to a heading.
\<close>

theorem empty_text_only_as_placeholder:
  "list_all nonEmptyText (parseMarkdownInline s)
   \<and> list_all (\<lambda>oc. list_all (\<lambda>n. \<not> emptyText n) (snd oc)
                     \<or> (snd oc = [Text [] None] \<and> fst oc \<noteq> InHeading))
        (documentContents (createTextADF text))"
proof
  have "tokenNode n \<Longrightarrow> nonEmptyText n" for n by (cases n) auto
  with parseMarkdownInline_tokenNode [of s] show "list_all nonEmptyText (parseMarkdownInline s)"
    by (rule list_all_imp)
  show "list_all (\<lambda>oc. list_all (\<lambda>n. \<not> emptyText n) (snd oc)
                     \<or> (snd oc = [Text [] None] \<and> fst oc \<noteq> InHeading))
        (documentContents (createTextADF text))"
    using documentContents_good [of "text"] by (rule list_all_imp) (rule goodContent_emptyText)
qed

text \<open>
  The theorem at a table with an empty cell, whose paragraph holds the placeholder.
\<close>

theorem empty_text_only_as_placeholder_witness:
  "documentContents (createTextADF ''a|\<newline>-----'') = [(InParagraph, [Text ''a'' None])]
   \<and> documentContents (createTextADF ''|a||\<newline>---|---'') =
       [(InParagraph, [Text ''a'' None]), (InParagraph, [Text [] None])]
   \<and> list_all nonEmptyText (parseMarkdownInline ''a [b'')
   \<and> list_all (\<lambda>oc. list_all (\<lambda>n. \<not> emptyText n) (snd oc)
                     \<or> (snd oc = [Text [] None] \<and> fst oc \<noteq> InHeading))
        (documentContents (createTextADF ''|a||\<newline>---|---''))"
proof -
  have "documentContents (createTextADF ''a|\<newline>-----'') = [(InParagraph, [Text ''a'' None])]"
    by code_simp
  moreover have "documentContents (createTextADF ''|a||\<newline>---|---'') =
       [(InParagraph, [Text ''a'' None]), (InParagraph, [Text [] None])]"
    by code_simp
  ultimately show ?thesis
    using empty_text_only_as_placeholder [of "''a [b''" "''|a||\<newline>---|---''"] by simp
qed

text \<open>
  A code block without body: its content is a text node with empty text, which is not
  in a paragraph.
\<close>

theorem empty_code_block_counterexample:
  "content (createTextADF ''```\<newline>```'') = [CodeBlock None [Text [] None]]
   \<and> documentContents (createTextADF ''```\<newline>```'') = [(InCodeBlock, [Text [] None])]"
  by code_simp

section \<open>The branches of the block loop\<close>

text \<open>
  Which branch of the loop a line takes. A line that matches the quote, bullet or ordered
  pattern starts, once trimmed, with a character that rules out the blank line, the code
  fence and the heading; only the table branch, which is tested before, can take it.
\<close>

lemma trimEnd_Cons: "\<not> isSpace c \<Longrightarrow> trimEnd (c # r) = c # trimEnd r"
  by (simp add: trimEnd_def dropWhile_append)

lemma trim_head:
  "dropWhile isSpace l = c # r \<Longrightarrow> trim l = c # trimEnd r"
proof -
  assume d: "dropWhile isSpace l = c # r"
  then have "\<not> isSpace c" using hd_dropWhile [of isSpace l] by auto
  then show ?thesis using d by (simp add: trim_def trimStart_def trimEnd_Cons)
qed

lemma codeFenceStart_head: "c \<noteq> CHR ''`'' \<Longrightarrow> codeFenceStart (c # r) = None"
  by (simp add: codeFenceStart_def)

lemma headingMatch_head: "c \<noteq> CHR ''#'' \<Longrightarrow> headingMatch (c # r) = None"
  by (simp add: headingMatch_def)

lemma isQuoteLine_head: "dropWhile isSpace l = c # r \<Longrightarrow> isQuoteLine l \<longleftrightarrow> c = CHR ''>''"
  by (simp add: isQuoteLine_def)

lemma bulletMatch_head:
  "bulletMatch l = Some (ws, t) \<Longrightarrow>
   \<exists>c r. dropWhile isSpace l = c # r \<and> (c = CHR ''-'' \<or> c = CHR ''*'')"
  by (auto simp: bulletMatch_def split: list.splits if_splits)

lemma orderedMatch_head:
  "orderedMatch l = Some (ws, ds, t) \<Longrightarrow> \<exists>c r. dropWhile isSpace l = c # r \<and> isDigit c"
proof -
  assume m: "orderedMatch l = Some (ws, ds, t)"
  then have "takeWhile isDigit (dropWhile isSpace l) \<noteq> []"
    by (auto simp: orderedMatch_def Let_def split: if_splits)
  then show ?thesis
    by (cases "dropWhile isSpace l") (auto split: if_splits)
qed

lemma isDigit_chars:
  "isDigit c \<Longrightarrow> c \<noteq> CHR ''`'' \<and> c \<noteq> CHR ''#'' \<and> c \<noteq> CHR ''>'' \<and> c \<noteq> CHR ''-'' \<and> c \<noteq> CHR ''*''"
  by (auto simp: isDigit_def)

lemma blank_branch:
  "trim (trimEnd rawLine) = [] \<Longrightarrow>
   parseLines st (rawLine # rest) = parseLines (flushListStack (flushParagraph st)) rest"
  by (subst parseLines.simps) (simp add: Let_def)

lemma quote_branch:
  assumes "isQuoteLine (trimEnd rawLine)" "\<not> isTableStart (trim (trimEnd rawLine)) rest"
  shows "parseLines st (rawLine # rest) =
     parseLines
       (pushBlock
          (Blockquote
             (parseMarkdownBlocks
                (joinWith [LF] (map stripQuote (takeWhile isQuoteLine (rawLine # rest))))))
          (flushListStack (flushParagraph st)))
       (dropWhile isQuoteLine (rawLine # rest))"
proof -
  from assms(1) obtain r where d: "dropWhile isSpace (trimEnd rawLine) = CHR ''>'' # r"
    by (auto simp: isQuoteLine_iff)
  then have t: "trim (trimEnd rawLine) = CHR ''>'' # trimEnd r" by (rule trim_head)
  show ?thesis
    using assms t by (subst parseLines.simps) (simp add: Let_def codeFenceStart_head)
qed

lemma bullet_branch:
  assumes "bulletMatch (trimEnd rawLine) = Some (ws, t)"
    "\<not> isTableStart (trim (trimEnd rawLine)) rest"
  shows "parseLines st (rawLine # rest) =
     parseLines (addListItem Bullet (getLineIndent ws) None t (flushParagraph st)) rest"
proof -
  from assms(1) obtain c r where d: "dropWhile isSpace (trimEnd rawLine) = c # r"
    and c: "c = CHR ''-'' \<or> c = CHR ''*''"
    using bulletMatch_head by blast
  from d have t: "trim (trimEnd rawLine) = c # trimEnd r" by (rule trim_head)
  have "\<not> isQuoteLine (trimEnd rawLine)" using d c by (auto simp: isQuoteLine_head)
  moreover have "codeFenceStart (c # trimEnd r) = None" "headingMatch (c # trimEnd r) = None"
    using c by (auto simp: codeFenceStart_head headingMatch_head)
  ultimately show ?thesis
    using assms t by (subst parseLines.simps) (simp add: Let_def)
qed

lemma ordered_branch:
  assumes "orderedMatch (trimEnd rawLine) = Some (ws, ds, t)"
    "\<not> isTableStart (trim (trimEnd rawLine)) rest"
  shows "parseLines st (rawLine # rest) =
     parseLines (addListItem Ordered (getLineIndent ws) (Some (Number ds)) t (flushParagraph st)) rest"
proof -
  from assms(1) obtain c r where d: "dropWhile isSpace (trimEnd rawLine) = c # r"
    and c: "isDigit c"
    using orderedMatch_head by blast
  from d have t: "trim (trimEnd rawLine) = c # trimEnd r" by (rule trim_head)
  have "\<not> isQuoteLine (trimEnd rawLine)" using d isDigit_chars [OF c] by (simp add: isQuoteLine_head)
  moreover have "codeFenceStart (c # trimEnd r) = None" "headingMatch (c # trimEnd r) = None"
    using isDigit_chars [OF c] by (auto simp: codeFenceStart_head headingMatch_head)
  moreover have "bulletMatch (trimEnd rawLine) = None"
    using d isDigit_chars [OF c] by (simp add: bulletMatch_def)
  ultimately show ?thesis
    using assms t by (subst parseLines.simps) (simp add: Let_def)
qed

lemma flushParagraph_empty: "paragraphLines st = [] \<Longrightarrow> flushParagraph st = st"
  by (simp add: flushParagraph_def)

lemma flushParagraph_fields:
  "paragraphLines (flushParagraph st) = []"
  "listStack (flushParagraph st) = listStack st"
  "blocks (flushParagraph st) =
     blocks st @ (if trim (joinWith '' '' (paragraphLines st)) = [] then []
                  else [buildParagraph (trim (joinWith '' '' (paragraphLines st)))])"
  by (cases "paragraphLines st = []";
      simp add: flushParagraph_def Let_def pushBlock_def trim_def trimStart_def trimEnd_def)+

lemma updNode_last: "updNode [length bs] f (bs @ [b]) = bs @ [f b]"
  by simp

lemma addListItem_empty_stack:
  assumes "listStack st = []"
  shows "addListItem ty ind start t st =
     st\<lparr>blocks := blocks st @ [setListContent [ListItem [buildParagraph t]] (createListNode ty start)],
        listStack := [\<lparr>etype = ty, indent = ind, node = [length (blocks st)]\<rparr>]\<rparr>"
  using assms
  by (cases ty)
     (simp_all add: addListItem_def ensureListContext_def attachList_def Let_def
        createListNode_def pushItem_def)





text \<open>
  Claim C4. On a blank line the loop continues with the paragraph buffer flushed and
  the list stack emptied, whatever entries it held: the buffer is empty afterwards, and
  its lines, joined by spaces and trimmed, have become a paragraph at the end of
  \<^verbatim>\<open>blocks\<close> unless that text is empty. A bullet or ordered item line that follows the
  blank line therefore makes a new list node at the end of \<^verbatim>\<open>blocks\<close>, with the item
  as its only item, and the stack then holds that list alone.
\<close>

theorem blank_line_closes_lists:
  assumes "trim (trimEnd blank) = []"
  shows "parseLines st (blank # rest) = parseLines (flushListStack (flushParagraph st)) rest
   \<and> listStack (flushListStack (flushParagraph st)) = []
   \<and> paragraphLines (flushListStack (flushParagraph st)) = []
   \<and> blocks (flushListStack (flushParagraph st)) =
       blocks st @ (if trim (joinWith '' '' (paragraphLines st)) = [] then []
                    else [buildParagraph (trim (joinWith '' '' (paragraphLines st)))])
   \<and> (bulletMatch (trimEnd l) = Some (ws, t) \<and> \<not> isTableStart (trim (trimEnd l)) rest' \<longrightarrow>
       parseLines st (blank # l # rest') =
         parseLines
           \<lparr>blocks = blocks (flushParagraph st) @ [BulletList [ListItem [buildParagraph t]]],
            paragraphLines = [],
            listStack = [\<lparr>etype = Bullet, indent = getLineIndent ws,
                           node = [length (blocks (flushParagraph st))]\<rparr>]\<rparr>
           rest')
   \<and> (orderedMatch (trimEnd l) = Some (ws, ds, t) \<and> \<not> isTableStart (trim (trimEnd l)) rest' \<longrightarrow>
       parseLines st (blank # l # rest') =
         parseLines
           \<lparr>blocks = blocks (flushParagraph st) @
              [OrderedList (if Number ds = 0 then None else Some (Number ds))
                 [ListItem [buildParagraph t]]],
            paragraphLines = [],
            listStack = [\<lparr>etype = Ordered, indent = getLineIndent ws,
                           node = [length (blocks (flushParagraph st))]\<rparr>]\<rparr>
           rest')"
proof -
  let ?st0 = "flushListStack (flushParagraph st)"
  have s0: "listStack ?st0 = []" "paragraphLines ?st0 = []" "blocks ?st0 = blocks (flushParagraph st)"
    by (simp_all add: flushListStack_def flushParagraph_fields(1))
  have b: "parseLines st (blank # ls) = parseLines ?st0 ls" for ls
    using assms by (rule blank_branch)
  have f: "flushParagraph ?st0 = ?st0" using s0(2) by (rule flushParagraph_empty)
  have add: "addListItem ty ind start t ?st0 =
      \<lparr>blocks = blocks (flushParagraph st) @
          [setListContent [ListItem [buildParagraph t]] (createListNode ty start)],
       paragraphLines = [],
       listStack = [\<lparr>etype = ty, indent = ind, node = [length (blocks (flushParagraph st))]\<rparr>]\<rparr>"
    for ty ind start
    using addListItem_empty_stack [OF s0(1), of ty ind start t] s0 by (cases ?st0) simp
  have bullet: "parseLines st (blank # l # rest') =
         parseLines
           \<lparr>blocks = blocks (flushParagraph st) @ [BulletList [ListItem [buildParagraph t]]],
            paragraphLines = [],
            listStack = [\<lparr>etype = Bullet, indent = getLineIndent ws,
                           node = [length (blocks (flushParagraph st))]\<rparr>]\<rparr>
           rest'"
    if "bulletMatch (trimEnd l) = Some (ws, t)" "\<not> isTableStart (trim (trimEnd l)) rest'"
    using bullet_branch [OF that, of ?st0] b [of "l # rest'"] f
      add [of Bullet "getLineIndent ws" None]
    by (simp add: createListNode_def)
  have ordered: "parseLines st (blank # l # rest') =
         parseLines
           \<lparr>blocks = blocks (flushParagraph st) @
              [OrderedList (if Number ds = 0 then None else Some (Number ds))
                 [ListItem [buildParagraph t]]],
            paragraphLines = [],
            listStack = [\<lparr>etype = Ordered, indent = getLineIndent ws,
                           node = [length (blocks (flushParagraph st))]\<rparr>]\<rparr>
           rest'"
    if "orderedMatch (trimEnd l) = Some (ws, ds, t)" "\<not> isTableStart (trim (trimEnd l)) rest'"
    using ordered_branch [OF that, of ?st0] b [of "l # rest'"] f
      add [of Ordered "getLineIndent ws" "Some (Number ds)"]
    by (simp add: createListNode_def)
  show ?thesis
    using b [of rest] s0(1,2) bullet ordered
    by (simp add: flushListStack_def flushParagraph_fields(3))
qed

text \<open>
  The theorem at the lines after \<^verbatim>\<open>- a\<close>: with a blank line before \<^verbatim>\<open>- b\<close> there are
  two lists, without it there is one list of two items.
\<close>

theorem blank_line_closes_lists_witness:
  "trim (trimEnd []) = []
   \<and> bulletMatch (trimEnd ''- b'') = Some ([], ''b'') \<and> \<not> isTableStart (trim (trimEnd ''- b'')) []
   \<and> parseLines (parseLines initialState [''- a'']) [[], ''- b''] =
       \<lparr>blocks = [BulletList [ListItem [Paragraph [Text ''a'' None]]],
                  BulletList [ListItem [Paragraph [Text ''b'' None]]]],
        paragraphLines = [],
        listStack = [\<lparr>etype = Bullet, indent = 0, node = [1]\<rparr>]\<rparr>
   \<and> listStack (parseLines initialState [''- a'']) = [\<lparr>etype = Bullet, indent = 0, node = [0]\<rparr>]
   \<and> parseMarkdownBlocks ''- a\<newline>\<newline>- b'' =
       [BulletList [ListItem [Paragraph [Text ''a'' None]]],
        BulletList [ListItem [Paragraph [Text ''b'' None]]]]
   \<and> parseMarkdownBlocks ''- a\<newline>- b'' =
       [BulletList [ListItem [Paragraph [Text ''a'' None]], ListItem [Paragraph [Text ''b'' None]]]]"
proof -
  have h1: "trim (trimEnd []) = []" by code_simp
  have h2: "bulletMatch (trimEnd ''- b'') = Some ([], ''b'')" by code_simp
  have h3: "\<not> isTableStart (trim (trimEnd ''- b'')) []" by (simp add: isTableStart_def)
  have s: "parseLines initialState [''- a''] =
      \<lparr>blocks = [BulletList [ListItem [Paragraph [Text ''a'' None]]]], paragraphLines = [],
       listStack = [\<lparr>etype = Bullet, indent = 0, node = [0]\<rparr>]\<rparr>"
    by code_simp
  have b: "buildParagraph ''b'' = Paragraph [Text ''b'' None]" by code_simp
  have g: "getLineIndent [] = 0" by (simp add: getLineIndent_def)
  have e1: "parseMarkdownBlocks ''- a\<newline>\<newline>- b'' =
       [BulletList [ListItem [Paragraph [Text ''a'' None]]],
        BulletList [ListItem [Paragraph [Text ''b'' None]]]]" by code_simp
  have e2: "parseMarkdownBlocks ''- a\<newline>- b'' =
       [BulletList [ListItem [Paragraph [Text ''a'' None]], ListItem [Paragraph [Text ''b'' None]]]]"
    by code_simp
  have "parseLines (parseLines initialState [''- a'']) [[], ''- b''] =
       parseLines
           \<lparr>blocks = blocks (flushParagraph (parseLines initialState [''- a''])) @ [BulletList [ListItem [buildParagraph ''b'']]],
            paragraphLines = [],
            listStack = [\<lparr>etype = Bullet, indent = getLineIndent [],
                           node = [length (blocks (flushParagraph (parseLines initialState [''- a''])))]\<rparr>]\<rparr>
           []"
    using blank_line_closes_lists [OF h1, where l = "''- b''" and ws = "[]" and t = "''b''"
        and rest' = "[]" and st = "parseLines initialState [''- a'']"] h2 h3
    by blast
  then show ?thesis
    using h1 h2 h3 e1 e2 by (simp add: s b g flushParagraph_def parseLines.simps(1))
qed

lemma not_isQuoteLine_after_run:
  "(case dropWhile isQuoteLine ls of [] \<Rightarrow> True | next # _ \<Rightarrow> \<not> isQuoteLine next)"
  by (induction ls) auto

text \<open>
  Claim C7, amended. When the loop is at a line that starts with optional whitespace
  and \<^verbatim>\<open>>\<close> and that the table branch does not take (the line has no bar, or the next
  line is no separator row), it reads this line and all the quote lines that follow it
  up to the first line that is not one, and pushes exactly one blockquote. Its content
  is the result of \<^verbatim>\<open>parseMarkdownBlocks\<close> on these lines, each without its prefix
  (whitespace, \<^verbatim>\<open>>\<close>, one whitespace character), joined by line feeds. The text
  \<^verbatim>\<open>"> line1\n> line2"\<close> gives one blockquote holding the blocks of \<^verbatim>\<open>"line1\nline2"\<close>, one
  paragraph with the two lines joined by a space.
\<close>

theorem blockquote_run:
  assumes "isQuoteLine (trimEnd rawLine)" and "\<not> isTableStart (trim (trimEnd rawLine)) rest"
  shows "parseLines st (rawLine # rest) =
     parseLines
       \<lparr>blocks = blocks (flushParagraph st) @
          [Blockquote
             (parseMarkdownBlocks
                (joinWith [LF] (map stripQuote (rawLine # takeWhile isQuoteLine rest))))],
        paragraphLines = [],
        listStack = []\<rparr>
       (dropWhile isQuoteLine rest)
   \<and> (case dropWhile isQuoteLine rest of [] \<Rightarrow> True | next # _ \<Rightarrow> \<not> isQuoteLine next)
   \<and> parseMarkdownBlocks ''> line1\<newline>> line2'' = [Blockquote (parseMarkdownBlocks ''line1\<newline>line2'')]
   \<and> parseMarkdownBlocks ''line1\<newline>line2'' = [Paragraph [Text ''line1 line2'' None]]"
proof (intro conjI)
  have q: "isQuoteLine rawLine" using assms(1) by (rule isQuoteLine_trimEnd)
  have "pushBlock b (flushListStack (flushParagraph st)) =
      \<lparr>blocks = blocks (flushParagraph st) @ [b], paragraphLines = [], listStack = []\<rparr>" for b
    using flushParagraph_fields(1) [of st]
    by (cases "flushParagraph st") (simp add: pushBlock_def flushListStack_def)
  then show "parseLines st (rawLine # rest) =
     parseLines
       \<lparr>blocks = blocks (flushParagraph st) @
          [Blockquote
             (parseMarkdownBlocks
                (joinWith [LF] (map stripQuote (rawLine # takeWhile isQuoteLine rest))))],
        paragraphLines = [],
        listStack = []\<rparr>
       (dropWhile isQuoteLine rest)"
    using quote_branch [OF assms, of st] q by simp
  show "case dropWhile isQuoteLine rest of [] \<Rightarrow> True | next # _ \<Rightarrow> \<not> isQuoteLine next"
    by (rule not_isQuoteLine_after_run)
  show "parseMarkdownBlocks ''> line1\<newline>> line2'' = [Blockquote (parseMarkdownBlocks ''line1\<newline>line2'')]"
    by code_simp
  show "parseMarkdownBlocks ''line1\<newline>line2'' = [Paragraph [Text ''line1 line2'' None]]"
    by code_simp
qed

text \<open>The theorem at two quote lines followed by a plain line.\<close>

theorem blockquote_run_witness:
  "isQuoteLine (trimEnd ''  > a '') \<and> \<not> isTableStart (trim (trimEnd ''  > a '')) [''>b'', ''c'']
   \<and> parseLines initialState [''  > a '', ''>b'', ''c''] =
       parseLines
         \<lparr>blocks = [Blockquote (parseMarkdownBlocks ''a \<newline>b'')], paragraphLines = [], listStack = []\<rparr>
         [''c'']
   \<and> parseMarkdownBlocks ''  > a \<newline>>b\<newline>c'' =
       [Blockquote [Paragraph [Text ''a b'' None]], Paragraph [Text ''c'' None]]"
proof -
  have h1: "isQuoteLine (trimEnd ''  > a '')" by code_simp
  have h2: "\<not> isTableStart (trim (trimEnd ''  > a '')) [''>b'', ''c'']" by code_simp
  have e: "parseMarkdownBlocks ''  > a \<newline>>b\<newline>c'' =
       [Blockquote [Paragraph [Text ''a b'' None]], Paragraph [Text ''c'' None]]" by code_simp
  have q: "isQuoteLine ''>b''" "\<not> isQuoteLine ''c''" by code_simp+
  have s: "stripQuote ''  > a '' = ''a ''" "stripQuote ''>b'' = ''b''" by code_simp+
  have f: "blocks (flushParagraph initialState) = []"
    by (simp add: flushParagraph_def initialState_def)
  show ?thesis
    using blockquote_run [OF h1 h2, of initialState] h1 h2 e
    by (simp add: q s f LF_def)
qed

text \<open>
  A quote line with a bar, followed by a separator row: the run of quote lines is the
  first line alone, the table branch is tested before the quote branch, and the result
  is a table without any blockquote.
\<close>

theorem blockquote_table_counterexample:
  "isQuoteLine ''> a|b'' \<and> \<not> isQuoteLine ''---|---''
   \<and> parseMarkdownBlocks ''> a|b\<newline>---|---'' =
       [Table False ''default''
          [TableRow [TableHeader [Paragraph [Text ''> a'' None]],
                     TableHeader [Paragraph [Text ''b'' None]]]]]"
  by code_simp

lemma searchSpecial_step_shorter:
  "s \<noteq> [] \<Longrightarrow> searchSpecial s = Some k \<Longrightarrow> length (if k = 0 then tl s else drop k s) < length s"
  by (cases s) auto

text \<open>
  Claim C1. The converter is a total function into documents: every text and every
  state of the block loop is in the domain of the recursion of \<^verbatim>\<open>parseMarkdownBlocks\<close>
  and its loop (which includes the call on the text of a quote), every string is in the
  domain of the loop of the tokenizer, and the result is a document value, there being
  no error value in the result type. Each loop makes progress: a matched pattern and an
  unmatched step of the tokenizer leave a shorter \<^verbatim>\<open>remaining\<close>; the code fence and table
  loops continue with lines after the current one; the quote loop reads at least the
  current line, and the text it passes to the recursive call is shorter than the text of
  the lines still to be read.
\<close>

theorem converter_total:
  "parseLines_parseMarkdownBlocks_dom (Inr src)
   \<and> parseLines_parseMarkdownBlocks_dom (Inl (st, ls))
   \<and> inlineLoop_dom (nodes, s)
   \<and> createTextADF src =
       \<lparr>version = 1,
        content = finishBlocks (parseLines initialState (splitOn LF (replaceCRLF src)))\<rparr>
   \<and> (\<forall>n r. matchFirstPattern s = Some (n, r) \<longrightarrow> length r < length s)
   \<and> (\<forall>k. s \<noteq> [] \<and> searchSpecial s = Some k \<longrightarrow>
         length (if k = 0 then tl s else drop k s) < length s)
   \<and> length (drop 1 (dropWhile (\<lambda>l. \<not> isCodeFenceEnd l) ls)) \<le> length ls
   \<and> length (dropWhile isTableBodyRow (tl ls)) \<le> length ls
   \<and> (isQuoteLine (trimEnd rawLine) \<longrightarrow>
         length (dropWhile isQuoteLine (rawLine # ls)) < length (rawLine # ls)
         \<and> length (joinWith [LF] (map stripQuote (takeWhile isQuoteLine (rawLine # ls))))
             < length (joinWith [LF] (rawLine # ls)))"
proof (intro conjI allI impI)
  show "parseLines_parseMarkdownBlocks_dom (Inr src)"
    using blocks_termination by blast
  show "parseLines_parseMarkdownBlocks_dom (Inl (st, ls))"
    using blocks_termination by blast
  show "inlineLoop_dom (nodes, s)"
    using inlineLoop_total by blast
  show "createTextADF src =
       \<lparr>version = 1,
        content = finishBlocks (parseLines initialState (splitOn LF (replaceCRLF src)))\<rparr>"
    by (simp add: createTextADF_def parseMarkdownBlocks.simps)
  show "length r < length s" if "matchFirstPattern s = Some (n, r)" for n r
    using that by (rule matchFirstPattern_shorter)
  show "length (if k = 0 then tl s else drop k s) < length s"
    if "s \<noteq> [] \<and> searchSpecial s = Some k" for k
    using that by (simp add: searchSpecial_step_shorter)
  show "length (drop 1 (dropWhile (\<lambda>l. \<not> isCodeFenceEnd l) ls)) \<le> length ls"
    using length_dropWhile_le [of "\<lambda>l. \<not> isCodeFenceEnd l" ls] by simp
  show "length (dropWhile isTableBodyRow (tl ls)) \<le> length ls"
    using length_dropWhile_le [of isTableBodyRow "tl ls"] by simp
  assume "isQuoteLine (trimEnd rawLine)"
  then have q: "isQuoteLine rawLine" by (rule isQuoteLine_trimEnd)
  then show "length (dropWhile isQuoteLine (rawLine # ls)) < length (rawLine # ls)"
    using length_dropWhile_le [of isQuoteLine ls] by simp
  have "Suc (length (joinWith [LF] (rawLine # ls))) = linesSize (rawLine # ls)"
    by (rule length_joinWith) simp
  then show "length (joinWith [LF] (map stripQuote (takeWhile isQuoteLine (rawLine # ls))))
             < length (joinWith [LF] (rawLine # ls))"
    using quote_text_shorter [OF q, of ls] by linarith
qed

text \<open>The theorem at a quote that holds an unterminated code fence and an unmatched star.\<close>

theorem converter_total_witness:
  "parseLines_parseMarkdownBlocks_dom (Inr ''> ```\<newline>> *a'')
   \<and> inlineLoop_dom ([], ''*a* [b'')
   \<and> createTextADF ''> ```\<newline>> *a'' =
       \<lparr>version = 1, content = [Blockquote [CodeBlock None [Text ''*a'' None]]]\<rparr>
   \<and> matchFirstPattern ''*a* [b'' = Some (Text ''a'' (Some [Em]), '' [b'')
   \<and> length '' [b'' < length ''*a* [b''
   \<and> searchSpecial '' [b'' = Some 1
   \<and> length (drop 1 '' [b'') < length '' [b''
   \<and> isQuoteLine (trimEnd ''> ``` '')
   \<and> length (dropWhile isQuoteLine [''> ``` '', ''> *a'']) < length [''> ``` '', ''> *a'']
   \<and> length (joinWith [LF] (map stripQuote (takeWhile isQuoteLine [''> ``` '', ''> *a''])))
       < length (joinWith [LF] [''> ``` '', ''> *a''])"
proof -
  have c: "createTextADF ''> ```\<newline>> *a'' =
       \<lparr>version = 1, content = [Blockquote [CodeBlock None [Text ''*a'' None]]]\<rparr>"
    by code_simp
  have m: "matchFirstPattern ''*a* [b'' = Some (Text ''a'' (Some [Em]), '' [b'')" by code_simp
  have k: "searchSpecial '' [b'' = Some 1" by code_simp
  have q: "isQuoteLine (trimEnd ''> ``` '')" by code_simp
  note t = converter_total [where src = "''> ```\<newline>> *a''" and s = "''*a* [b''" and nodes = "[]"
      and rawLine = "''> ``` ''" and ls = "[''> *a'']"]
  note t2 = converter_total [where s = "'' [b''"]
  show ?thesis
    using t t2 c m k q by simp
qed

section \<open>Nested lists\<close>

lemma listContent_setListContent:
  "listContent n = Some items \<Longrightarrow> listContent (setListContent items' n) = Some items'"
  by (cases n) auto

lemma setListContent_same: "listContent n = Some items \<Longrightarrow> setListContent items n = n"
  by (cases n) auto

lemma setListContent_twice: "setListContent xs (setListContent ys n) = setListContent xs n"
  by (cases n) auto

lemma ListItem_itemContent: "ListItem (itemContent i) = i"
  by (cases i) simp

lemma getNode_updNode:
  "getNode bs p = Some n \<Longrightarrow> getNode (updNode p f bs) p = Some (f n)"
proof (induction p f bs arbitrary: n rule: updNode.induct)
  case (1 f bs)
  then show ?case by simp
next
  case (2 i f bs)
  then show ?case by (auto split: if_splits)
next
  case (3 i j p f bs)
  from "3.prems" obtain items where i: "i < length bs" and its: "listContent (bs ! i) = Some items"
    and j: "j < length items" and g: "getNode (itemContent (items ! j)) p = Some n"
    by (auto split: if_splits option.splits)
  have "getNode (updNode p f (itemContent (items ! j))) p = Some (f n)"
    using "3.IH" [OF i its j g] .
  then show ?case
    using i its j by (simp add: listContent_setListContent)
qed

lemma updNode_cong:
  "getNode bs p = Some n \<Longrightarrow> f n = g n \<Longrightarrow> updNode p f bs = updNode p g bs"
proof (induction p f bs arbitrary: n rule: updNode.induct)
  case (1 f bs)
  then show ?case by simp
next
  case (2 i f bs)
  then show ?case by (auto split: if_splits)
next
  case (3 i j p f bs)
  from "3.prems"(1) obtain items where i: "i < length bs" and its: "listContent (bs ! i) = Some items"
    and j: "j < length items" and gn: "getNode (itemContent (items ! j)) p = Some n"
    by (auto split: if_splits option.splits)
  have "updNode p f (itemContent (items ! j)) = updNode p g (itemContent (items ! j))"
    using "3.IH" [OF i its j gn "3.prems"(2)] .
  then show ?case using i its j by simp
qed

lemma updNode_compose: "updNode p f (updNode p g bs) = updNode p (f \<circ> g) bs"
proof (induction p g bs rule: updNode.induct)
  case (1 g bs)
  then show ?case by simp
next
  case (2 i g bs)
  then show ?case by simp
next
  case (3 i j p g bs)
  show ?case
  proof (cases "i < length bs")
    case False
    then show ?thesis by simp
  next
    case i: True
    show ?thesis
    proof (cases "listContent (bs ! i)")
      case None
      then show ?thesis using i by simp
    next
      case (Some items)
      show ?thesis
      proof (cases "j < length items")
        case False
        then show ?thesis using i Some by simp
      next
        case j: True
        show ?thesis
          using i Some j "3.IH" [OF i Some j]
          by (simp add: listContent_setListContent setListContent_twice)
      qed
    qed
  qed
qed

lemma updNode_append:
  "updNode (p @ [j, k]) g bs = updNode p (updChild j k g) bs"
proof (induction p "updChild j k g" bs rule: updNode.induct)
  case (1 bs)
  show ?case
    by (auto simp: list_update_same_conv ListItem_itemContent setListContent_same
        split: option.splits)
next
  case (2 i bs)
  then show ?case by (simp add: updChild_def split: option.splits)
next
  case (3 i j' p bs)
  then show ?case by (simp split: option.splits)
qed

lemma updChild_last:
  "listContent n = Some items0 \<Longrightarrow>
   updChild (length xs) (length c) g (setListContent (xs @ [ListItem (c @ [b])]) n)
     = setListContent (xs @ [ListItem (c @ [g b])]) n"
  by (simp add: updChild_def listContent_setListContent setListContent_twice)

lemma popDeeper_keep: "indent e \<le> ind \<Longrightarrow> popDeeper ind (e # es) = e # es"
  by simp

lemma nested_blocks:
  assumes g: "getNode bs p = Some parentNode"
    and its: "listContent parentNode = Some items"
    and n0: "listContent n0 = Some []"
  defines "items1 \<equiv> (if items = [] then [ListItem [buildParagraph []]] else items)"
  shows "updNode (nestedPath bs p) (pushItem item) (updNode p (nestInParent n0) bs)
       = updNode p (\<lambda>_. setListContent
            (butlast items1 @ [ListItem (itemContent (last items1) @ [setListContent [item] n0])])
            parentNode) bs"
    and "nestedPath bs p = p @ [length items1 - 1, length (itemContent (last items1))]"
proof -
  let ?j = "length items1 - 1"
  let ?c = "itemContent (last items1)"
  let ?k = "length ?c"
  have ne: "items1 \<noteq> []" by (simp add: items1_def)
  show np: "nestedPath bs p = p @ [?j, ?k]"
    using g its by (simp add: nestedPath_def items1_def buildParagraph_def)
  let ?n1 = "setListContent (butlast items1 @ [ListItem (?c @ [n0])]) parentNode"
  have n1: "nestInParent n0 parentNode = ?n1"
    using its by (simp add: nestInParent_def items1_def)
  have "updChild (length (butlast items1)) ?k (pushItem item) ?n1 =
      setListContent (butlast items1 @ [ListItem (?c @ [pushItem item n0])]) parentNode"
    using its by (rule updChild_last)
  then have "updChild ?j ?k (pushItem item) ?n1 =
      setListContent (butlast items1 @ [ListItem (?c @ [setListContent [item] n0])]) parentNode"
    using n0 by (simp add: pushItem_def)
  then have eq: "(updChild ?j ?k (pushItem item) \<circ> nestInParent n0) parentNode
      = (\<lambda>_. setListContent (butlast items1 @ [ListItem (?c @ [setListContent [item] n0])])
           parentNode) parentNode"
    by (simp add: n1)
  have "updNode (p @ [?j, ?k]) (pushItem item) (updNode p (nestInParent n0) bs)
      = updNode p (updChild ?j ?k (pushItem item) \<circ> nestInParent n0) bs"
    by (simp only: updNode_append updNode_compose)
  also have "\<dots> = updNode p (\<lambda>_. setListContent
            (butlast items1 @ [ListItem (?c @ [setListContent [item] n0])]) parentNode) bs"
    using g eq by (rule updNode_cong)
  finally show "updNode (nestedPath bs p) (pushItem item) (updNode p (nestInParent n0) bs)
       = updNode p (\<lambda>_. setListContent
            (butlast items1 @ [ListItem (itemContent (last items1) @ [setListContent [item] n0])])
            parentNode) bs"
    by (simp only: np)
qed

lemma createListNode_fresh:
  "listContent (createListNode ty start) = Some []" "listKind (createListNode ty start) = Some ty"
  by (cases ty; simp add: createListNode_def)+

text \<open>
  A bullet item line read while the top entry of the stack is indented less than the
  line and denotes a list node with items: the tree changes at that node only.
\<close>

lemma nested_bullet_step:
  assumes "bulletMatch (trimEnd rawLine) = Some (ws, t)"
    and "\<not> isTableStart (trim (trimEnd rawLine)) rest"
    and "listStack st = topEntry # below"
    and "indent topEntry < getLineIndent ws"
    and "getNode (blocks (flushParagraph st)) (node topEntry) = Some parentNode"
    and "listContent parentNode = Some items"
    and "items \<noteq> []"
  shows "parseLines st (rawLine # rest) =
     parseLines
       \<lparr>blocks =
          updNode (node topEntry)
            (\<lambda>_. setListContent
               (butlast items @
                  [ListItem (itemContent (last items) @ [BulletList [ListItem [buildParagraph t]]])])
               parentNode)
            (blocks (flushParagraph st)),
        paragraphLines = [],
        listStack =
          \<lparr>etype = Bullet, indent = getLineIndent ws,
           node = node topEntry @ [length items - 1, length (itemContent (last items))]\<rparr>
          # topEntry # below\<rparr>
       rest
   \<and> getNode
        (updNode (node topEntry)
            (\<lambda>_. setListContent
               (butlast items @
                  [ListItem (itemContent (last items) @ [BulletList [ListItem [buildParagraph t]]])])
               parentNode)
            (blocks (flushParagraph st)))
        (node topEntry)
       = Some (setListContent
               (butlast items @
                  [ListItem (itemContent (last items) @ [BulletList [ListItem [buildParagraph t]]])])
               parentNode)
   \<and> parseMarkdownBlocks ''- a\<newline>  - b'' =
       [BulletList
          [ListItem [Paragraph [Text ''a'' None],
                     BulletList [ListItem [Paragraph [Text ''b'' None]]]]]]"
proof (intro conjI)
  let ?st0 = "flushParagraph st"
  let ?ind = "getLineIndent ws"
  let ?item = "ListItem [buildParagraph t]"
  let ?final = "setListContent
      (butlast items @ [ListItem (itemContent (last items) @ [BulletList [?item]])]) parentNode"
  have s0: "listStack ?st0 = topEntry # below" "paragraphLines ?st0 = []"
    using assms(3) by (simp_all add: flushParagraph_fields)
  have st1: "?st0\<lparr>listStack := topEntry # below\<rparr> = ?st0"
    using s0(1) by (cases ?st0) simp
  have ens: "ensureListContext Bullet ?ind None ?st0 =
      attachList Bullet ?ind None (Some topEntry) ?st0"
    using assms(4) s0(1) by (simp add: ensureListContext_def Let_def st1)
  have fresh: "listContent (createListNode Bullet None) = Some []"
    by (rule createListNode_fresh)
  have new: "setListContent [?item] (createListNode Bullet None) = BulletList [?item]"
    by (simp add: createListNode_def)
  note nb = nested_blocks(1) [OF assms(5,6) fresh, of ?item] nested_blocks(2) [OF assms(5,6) fresh]
  have "addListItem Bullet ?ind None t ?st0 =
      ?st0\<lparr>blocks := updNode (node topEntry) (\<lambda>_. ?final) (blocks ?st0),
            listStack := \<lparr>etype = Bullet, indent = ?ind,
              node = node topEntry @ [length items - 1, length (itemContent (last items))]\<rparr>
              # topEntry # below\<rparr>"
    using nb assms(7) s0(1) new
    by (simp add: addListItem_def ens attachList_def Let_def)
  also have "\<dots> = \<lparr>blocks = updNode (node topEntry) (\<lambda>_. ?final) (blocks ?st0),
        paragraphLines = [],
        listStack = \<lparr>etype = Bullet, indent = ?ind,
           node = node topEntry @ [length items - 1, length (itemContent (last items))]\<rparr>
          # topEntry # below\<rparr>"
    using s0(2) by (cases ?st0) simp
  finally show "parseLines st (rawLine # rest) =
     parseLines
       \<lparr>blocks = updNode (node topEntry) (\<lambda>_. ?final) (blocks ?st0),
        paragraphLines = [],
        listStack =
          \<lparr>etype = Bullet, indent = ?ind,
           node = node topEntry @ [length items - 1, length (itemContent (last items))]\<rparr>
          # topEntry # below\<rparr>
       rest"
    using bullet_branch [OF assms(1,2), of st] by simp
  show "getNode (updNode (node topEntry) (\<lambda>_. ?final) (blocks ?st0)) (node topEntry) = Some ?final"
    using assms(5) by (rule getNode_updNode)
  show "parseMarkdownBlocks ''- a\<newline>  - b'' =
       [BulletList
          [ListItem [Paragraph [Text ''a'' None],
                     BulletList [ListItem [Paragraph [Text ''b'' None]]]]]]"
    by code_simp
qed

section \<open>The references held by the stack\<close>

text \<open>
  The paths on the stack denote list nodes throughout the loop. The stack of the
  initial state is in order, and every operation of the loop keeps it in order: every
  entry denotes a list node of the kind of the entry with at least one item, the bottom
  entry denotes a block of \<^verbatim>\<open>blocks\<close>, and the path of every other entry extends the
  path of the entry below it by an item index and a content index. The branches of
  \<open>nestedPath\<close>, \<open>pushItem\<close>, \<open>nestInParent\<close> and \<open>continueList\<close> for a path that
  denotes no list node are therefore not taken by the loop.
\<close>

lemma listKind_setListContent: "listKind (setListContent items n) = listKind n"
  by (cases n) auto

lemma listKind_listContent: "listKind n = Some ty \<Longrightarrow> \<exists>items. listContent n = Some items"
  by (cases n) auto

lemma getNode_append_valid: "getNode bs p = Some n \<Longrightarrow> getNode (bs @ cs) p = Some n"
  by (induction bs p rule: getNode.induct) (auto simp: nth_append split: if_splits option.splits)

lemma validEntry_append: "validEntry bs e \<Longrightarrow> validEntry (bs @ cs) e"
  by (auto simp: validEntry_def getNode_append_valid split: option.splits)

lemma stackOK_append: "stackOK bs es \<Longrightarrow> stackOK (bs @ cs) es"
  by (induction bs es rule: stackOK.induct) (auto simp: validEntry_append)

lemma stackOK_tl: "stackOK bs (e # es) \<Longrightarrow> stackOK bs es"
  by (cases es) auto

lemma stackOK_popDeeper: "stackOK bs es \<Longrightarrow> stackOK bs (popDeeper ind es)"
  by (induction es) (auto dest: stackOK_tl)

lemma stackOK_hd: "stackOK bs (e # es) \<Longrightarrow> validEntry bs e"
  by (cases es) auto

text \<open>An update below a node leaves it a list node of its kind with as many items.\<close>

lemma getNode_updNode_above:
  assumes "getNode bs p = Some n" "r \<noteq> []"
  shows "\<exists>n'. getNode (updNode (p @ r) f bs) p = Some n' \<and> listKind n' = listKind n
           \<and> (listContent n = None \<longrightarrow> n' = n)
           \<and> (\<forall>items. listContent n = Some items \<longrightarrow>
                 (\<exists>items'. listContent n' = Some items' \<and> length items' = length items))"
  using assms
proof (induction bs p arbitrary: n rule: getNode.induct)
  case (1 bs)
  then show ?case by simp
next
  case (2 bs i)
  then obtain j r' where r: "r = j # r'" by (cases r) auto
  from "2.prems" have i: "i < length bs" and n: "n = bs ! i" by (auto split: if_splits)
  show ?case
    using i n r
    by (cases "listContent (bs ! i)")
       (auto simp: listKind_setListContent listContent_setListContent)
next
  case (3 bs i j p)
  from "3.prems"(1) obtain items where i: "i < length bs" and its: "listContent (bs ! i) = Some items"
    and j: "j < length items" and g: "getNode (itemContent (items ! j)) p = Some n"
    by (auto split: if_splits option.splits)
  from "3.IH" [OF i its j g "3.prems"(2)]
  show ?case using i its j by (simp add: listContent_setListContent)
qed

lemma validEntry_updNode_above:
  assumes "validEntry bs e" "r \<noteq> []"
  shows "validEntry (updNode (node e @ r) f bs) e"
proof -
  from assms(1) obtain n items where g: "getNode bs (node e) = Some n"
    and k: "listKind n = Some (etype e)" and its: "listContent n = Some items" "items \<noteq> []"
    by (auto simp: validEntry_def split: option.splits)
  from getNode_updNode_above [OF g assms(2), of f] its k
  show ?thesis by (auto simp: validEntry_def)
qed

lemma take_prefix_append: "take (length p) q = p \<Longrightarrow> \<exists>r. q = p @ r"
  by (metis append_take_drop_id)

lemma stackOK_chain:
  assumes "stackOK bs (e # par # es)"
  shows "\<exists>r. r \<noteq> [] \<and> node e = node par @ r"
proof -
  from assms obtain r where r: "node e = node par @ r"
    using take_prefix_append [of "node par" "node e"] by auto
  moreover from assms r have "length r = 2" by simp
  ultimately show ?thesis by auto
qed

lemma stackOK_updNode_above:
  assumes "stackOK bs (par # es)" "\<exists>r. r \<noteq> [] \<and> q = node par @ r"
  shows "stackOK (updNode q f bs) (par # es)"
  using assms
proof (induction bs "par # es" arbitrary: par es q rule: stackOK.induct)
  case (2 bs e)
  then show ?case by (auto simp: validEntry_updNode_above)
next
  case (3 bs e par es)
  from "3.prems"(2) obtain r where r: "r \<noteq> []" "q = node e @ r" by blast
  from stackOK_chain [OF "3.prems"(1)] obtain r0 where r0: "node e = node par @ r0" "r0 \<noteq> []"
    by blast
  have "stackOK (updNode q f bs) (par # es)"
    using "3.prems"(1) r r0 by (intro "3.hyps") auto
  then show ?case using "3.prems"(1) r by (auto simp: validEntry_updNode_above)
qed

lemma stackOK_updNode_top:
  assumes "stackOK bs (e # es)" "getNode bs (node e) = Some n"
    "listKind (f n) = listKind n" "listContent (f n) = Some items'" "items' \<noteq> []"
  shows "stackOK (updNode (node e) f bs) (e # es)"
proof -
  have v: "validEntry (updNode (node e) f bs) e"
    using assms stackOK_hd [OF assms(1)] getNode_updNode [OF assms(2), of f]
    by (auto simp: validEntry_def split: option.splits)
  show ?thesis
  proof (cases es)
    case Nil
    then show ?thesis using v assms(1) by simp
  next
    case (Cons par es')
    from stackOK_chain [of bs e par es'] assms(1) Cons
    obtain r where "node e = node par @ r" "r \<noteq> []" by blast
    then have "stackOK (updNode (node e) f bs) (par # es')"
      using assms(1) Cons by (intro stackOK_updNode_above) auto
    then show ?thesis using v assms(1) Cons by simp
  qed
qed

lemma getNode_append_child:
  "getNode bs q = Some n \<Longrightarrow> listContent n = Some items \<Longrightarrow> j < length items \<Longrightarrow>
   getNode bs (q @ [j, k]) = getNode (itemContent (items ! j)) [k]"
  by (induction bs q rule: getNode.induct) (auto split: if_splits option.splits)

lemma popDeeper_head: "popDeeper ind es = c # b \<Longrightarrow> indent c \<le> ind"
  by (induction es) (auto split: if_splits)

lemma stackOK_attach_top_level:
  "stackOK (bs @ [setListContent [item] (createListNode ty start)])
     [\<lparr>etype = ty, indent = ind, node = [length bs]\<rparr>]"
  by (simp add: validEntry_def listKind_setListContent createListNode_fresh
      listContent_setListContent [OF createListNode_fresh(1)])

lemma stackOK_attach_nested:
  assumes ok: "stackOK bs (par # es)"
  shows "stackOK
     (updNode (nestedPath bs (node par)) (pushItem item)
        (updNode (node par) (nestInParent (createListNode ty start)) bs))
     (\<lparr>etype = ty, indent = ind, node = nestedPath bs (node par)\<rparr> # par # es)"
proof -
  let ?n0 = "createListNode ty start"
  from stackOK_hd [OF ok] obtain parentNode items where g: "getNode bs (node par) = Some parentNode"
    and its: "listContent parentNode = Some items" and ne: "items \<noteq> []"
    by (auto simp: validEntry_def split: option.splits)
  let ?c = "itemContent (last items)"
  let ?new = "setListContent [item] ?n0"
  let ?its' = "butlast items @ [ListItem (?c @ [?new])]"
  let ?final = "setListContent ?its' parentNode"
  let ?bs2 = "updNode (node par) (\<lambda>_. ?final) bs"
  note nb = nested_blocks [OF g its createListNode_fresh(1) [of ty start]]
  have bs2: "updNode (nestedPath bs (node par)) (pushItem item)
        (updNode (node par) (nestInParent ?n0) bs) = ?bs2"
    using nb(1) [of item] ne by simp
  have path: "nestedPath bs (node par) = node par @ [length items - 1, length ?c]"
    using nb(2) ne by simp
  have lf: "listContent ?final = Some ?its'"
    using its by (rule listContent_setListContent)
  have below: "stackOK ?bs2 (par # es)"
  proof (rule stackOK_updNode_top [OF ok g])
    show "listKind ?final = listKind parentNode" by (rule listKind_setListContent)
    show "listContent ?final = Some ?its'" by (rule lf)
    show "?its' \<noteq> []" by simp
  qed
  have gp: "getNode ?bs2 (node par) = Some ?final"
    using g by (rule getNode_updNode)
  have "getNode ?bs2 (node par @ [length (butlast items), length ?c])
      = getNode (itemContent (?its' ! length (butlast items))) [length ?c]"
    using gp lf by (rule getNode_append_child) simp
  then have "getNode ?bs2 (node par @ [length items - 1, length ?c]) = Some ?new"
    by (simp add: nth_append del: length_butlast) (simp)
  then have "validEntry ?bs2 \<lparr>etype = ty, indent = ind, node = nestedPath bs (node par)\<rparr>"
    by (simp add: validEntry_def path listKind_setListContent createListNode_fresh
        listContent_setListContent [OF createListNode_fresh(1)])
  moreover have "updNode (node par @ [length items - 1, length ?c]) (pushItem item)
        (updNode (node par) (nestInParent ?n0) bs) = ?bs2"
    using bs2 by (simp only: path)
  ultimately show ?thesis
    using below by (simp add: path)
qed

lemma stateOK_addListItem:
  assumes "stateOK st"
  shows "stateOK (addListItem ty ind start t st)"
proof -
  let ?item = "ListItem [buildParagraph t]"
  let ?es1 = "popDeeper ind (listStack st)"
  have ok1: "stackOK (blocks st) ?es1"
    using assms by (simp add: stateOK_def stackOK_popDeeper)
  have top_level: "stateOK (case attachList ty ind start None (st\<lparr>listStack := []\<rparr>) of
      (entry, st1) \<Rightarrow> st1\<lparr>blocks := updNode (node entry) (pushItem ?item) (blocks st1)\<rparr>)"
    using stackOK_attach_top_level [of "blocks st" ?item ty start ind]
    by (simp add: attachList_def Let_def stateOK_def pushItem_def createListNode_fresh)
  have nested: "stateOK (case attachList ty ind start (Some par) (st\<lparr>listStack := par # es\<rparr>) of
      (entry, st1) \<Rightarrow> st1\<lparr>blocks := updNode (node entry) (pushItem ?item) (blocks st1)\<rparr>)"
    if "stackOK (blocks st) (par # es)" for par es
    using stackOK_attach_nested [OF that, of ?item ty start ind]
    by (simp add: attachList_def Let_def stateOK_def)
  show ?thesis
  proof (cases ?es1)
    case Nil
    then show ?thesis using top_level by (simp add: addListItem_def ensureListContext_def Let_def)
  next
    case (Cons current below)
    have le: "indent current \<le> ind" using Cons by (rule popDeeper_head)
    have okc: "stackOK (blocks st) (current # below)" using ok1 Cons by simp
    show ?thesis
    proof (cases "indent current = ind \<and> etype current = ty")
      case True
      from stackOK_hd [OF okc] obtain n items where g: "getNode (blocks st) (node current) = Some n"
        and its: "listContent n = Some items"
        by (auto simp: validEntry_def split: option.splits)
      have "stackOK (updNode (node current) (pushItem ?item) (blocks st)) (current # below)"
      proof (rule stackOK_updNode_top [OF okc g])
        show "listKind (pushItem ?item n) = listKind n"
          using its by (simp add: pushItem_def listKind_setListContent)
        show "listContent (pushItem ?item n) = Some (items @ [?item])"
          using its by (simp add: pushItem_def listContent_setListContent)
        show "items @ [?item] \<noteq> []" by simp
      qed
      then show ?thesis
        using Cons True by (simp add: addListItem_def ensureListContext_def Let_def stateOK_def)
    next
      case diff: False
      show ?thesis
      proof (cases "indent current < ind")
        case True
        then show ?thesis
          using Cons diff nested [OF okc]
          by (simp add: addListItem_def ensureListContext_def Let_def)
      next
        case False
        then have eq: "indent current = ind" using le by simp
        show ?thesis
        proof (cases below)
          case Nil
          then show ?thesis
            using Cons diff eq top_level
            by (simp add: addListItem_def ensureListContext_def Let_def)
        next
          case (Cons par es)
          then have "stackOK (blocks st) (par # es)" using okc stackOK_tl by blast
          from nested [OF this] show ?thesis
            using \<open>?es1 = current # below\<close> Cons diff eq
            by (simp add: addListItem_def ensureListContext_def Let_def)
        qed
      qed
    qed
  qed
qed

lemma stateOK_appendContinuation:
  assumes "stateOK st" "listStack st = topEntry # es"
  shows "stateOK (appendContinuationToListItem topEntry line st)"
proof -
  have ok: "stackOK (blocks st) (topEntry # es)" using assms by (simp add: stateOK_def)
  from stackOK_hd [OF ok] obtain n items where g: "getNode (blocks st) (node topEntry) = Some n"
    and its: "listContent n = Some items"
    by (auto simp: validEntry_def split: option.splits)
  let ?items1 = "if items = [] then [ListItem [buildParagraph []]] else items"
  let ?its' = "butlast ?items1 @ [continueItem line (last ?items1)]"
  have "stackOK (updNode (node topEntry) (continueList line) (blocks st)) (topEntry # es)"
  proof (rule stackOK_updNode_top [OF ok g])
    show "listKind (continueList line n) = listKind n"
      using its by (simp add: continueList_def Let_def listKind_setListContent)
    show "listContent (continueList line n) = Some ?its'"
      using its by (simp add: continueList_def Let_def listContent_setListContent)
    show "?its' \<noteq> []" by simp
  qed
  then show ?thesis
    using assms(2) by (simp add: stateOK_def appendContinuationToListItem_def)
qed

lemma stateOK_flushListStack: "stateOK (flushListStack st)"
  by (simp add: stateOK_def flushListStack_def)

lemma stateOK_pushBlock_flushed: "stateOK (pushBlock b (flushListStack st))"
  by (simp add: stateOK_def flushListStack_def pushBlock_def)

lemma stateOK_flushParagraph: "stateOK st \<Longrightarrow> stateOK (flushParagraph st)"
  by (simp add: stateOK_def flushParagraph_def pushBlock_def Let_def stackOK_append)

lemma stateOK_paragraphLines: "stateOK st \<Longrightarrow> stateOK (st\<lparr>paragraphLines := ls\<rparr>)"
  by (simp add: stateOK_def)

lemma stateOK_initial: "stateOK initialState"
  by (simp add: stateOK_def initialState_def)

lemma stateOK_parseLines: "stateOK st \<Longrightarrow> stateOK (parseLines st ls)"
proof (induction st ls rule: parseLines_parseMarkdownBlocks.induct(1) [where Q = "\<lambda>t. True"])
  case (1 st)
  then show ?case by (simp add: parseLines.simps)
next
  case (2 st rawLine rest)
  note ok = stateOK_flushListStack stateOK_pushBlock_flushed stateOK_flushParagraph
    stateOK_paragraphLines stateOK_addListItem stateOK_appendContinuation
  show ?case
    using "2.prems" "2.IH"
    by (subst parseLines.simps)
       (auto simp: Let_def ok split: option.splits list.splits)
next
  case (3 t)
  show ?case by simp
qed

text \<open>
  In such a state the top entry of the stack denotes a list node with a last item: the
  conditions of the theorem on nested bullet items hold there.
\<close>

lemma stateOK_top:
  assumes "stateOK st" "listStack st = topEntry # below"
  shows "\<exists>parentNode items.
           getNode (blocks (flushParagraph st)) (node topEntry) = Some parentNode
           \<and> listKind parentNode = Some (etype topEntry)
           \<and> listContent parentNode = Some items \<and> items \<noteq> []"
proof -
  have "stateOK (flushParagraph st)" using assms(1) by (rule stateOK_flushParagraph)
  then have "validEntry (blocks (flushParagraph st)) topEntry"
    using assms(2) stackOK_hd [of "blocks (flushParagraph st)" topEntry below]
    by (simp add: stateOK_def flushParagraph_fields(2))
  then show ?thesis
    by (auto simp: validEntry_def split: option.splits)
qed

section \<open>List nodes keep their path and their attribute\<close>
























lemma itemOK_new: "itemOK (ListItem [buildParagraph t])"
  by (simp add: buildParagraph_def)
























subsection \<open>The value of a string of digits\<close>







section \<open>Lists made by a run of item lines\<close>










text \<open>
  Claim C6. Let a bullet item line be read in a state of the loop while the innermost
  open list (the top entry of the stack) is indented less than the line. Then that entry
  denotes a list node with a last item, and the tree changes at that list node only: a
  new bullet list whose only item is the paragraph of the line is appended to the
  content of the last item of that list. The new list is pushed on the stack, above the
  entry of its parent. The text \<^verbatim>\<open>"- a\n  - b"\<close> gives one bullet list with one item,
  which holds the paragraph a and then a bullet list with one item holding the
  paragraph b.
\<close>

theorem nested_bullet_item:
  assumes "bulletMatch (trimEnd rawLine) = Some (ws, t)"
    and "\<not> isTableStart (trim (trimEnd rawLine)) rest"
    and "stateOK st"
    and "listStack st = topEntry # below"
    and "indent topEntry < getLineIndent ws"
  shows "(\<exists>parentNode items.
            getNode (blocks (flushParagraph st)) (node topEntry) = Some parentNode
            \<and> listContent parentNode = Some items \<and> items \<noteq> []
            \<and> parseLines st (rawLine # rest) =
                parseLines
                  \<lparr>blocks =
                     updNode (node topEntry)
                       (\<lambda>_. setListContent
                          (butlast items @
                             [ListItem (itemContent (last items)
                                        @ [BulletList [ListItem [buildParagraph t]]])])
                          parentNode)
                       (blocks (flushParagraph st)),
                   paragraphLines = [],
                   listStack =
                     \<lparr>etype = Bullet, indent = getLineIndent ws,
                      node = node topEntry @ [length items - 1, length (itemContent (last items))]\<rparr>
                     # topEntry # below\<rparr>
                  rest
            \<and> getNode
                 (updNode (node topEntry)
                    (\<lambda>_. setListContent
                       (butlast items @
                          [ListItem (itemContent (last items)
                                     @ [BulletList [ListItem [buildParagraph t]]])])
                       parentNode)
                    (blocks (flushParagraph st)))
                 (node topEntry)
                = Some (setListContent
                          (butlast items @
                             [ListItem (itemContent (last items)
                                        @ [BulletList [ListItem [buildParagraph t]]])])
                          parentNode))
   \<and> parseMarkdownBlocks ''- a\<newline>  - b'' =
       [BulletList
          [ListItem [Paragraph [Text ''a'' None],
                     BulletList [ListItem [Paragraph [Text ''b'' None]]]]]]"
proof -
  from stateOK_top [OF assms(3,4)] obtain parentNode items
    where g: "getNode (blocks (flushParagraph st)) (node topEntry) = Some parentNode"
      and its: "listContent parentNode = Some items" and ne: "items \<noteq> []"
    by blast
  from nested_bullet_step [OF assms(1,2,4,5) g its ne] g its ne
  show ?thesis by blast
qed

text \<open>The theorem at the line \<^verbatim>\<open>  - b\<close>, read in the state that the line \<^verbatim>\<open>- a\<close> leaves.\<close>

theorem nested_bullet_item_witness:
  "bulletMatch (trimEnd ''  - b'') = Some (''  '', ''b'')
   \<and> \<not> isTableStart (trim (trimEnd ''  - b'')) []
   \<and> parseLines initialState [''- a''] =
       \<lparr>blocks = [BulletList [ListItem [Paragraph [Text ''a'' None]]]], paragraphLines = [],
        listStack = [\<lparr>etype = Bullet, indent = 0, node = [0]\<rparr>]\<rparr>
   \<and> stateOK (parseLines initialState [''- a''])
   \<and> (0::nat) < getLineIndent ''  ''
   \<and> parseLines (parseLines initialState [''- a'']) [''  - b''] =
       \<lparr>blocks = [BulletList [ListItem [Paragraph [Text ''a'' None],
                                          BulletList [ListItem [Paragraph [Text ''b'' None]]]]]],
        paragraphLines = [],
        listStack = [\<lparr>etype = Bullet, indent = 2, node = [0, 0, 1]\<rparr>,
                     \<lparr>etype = Bullet, indent = 0, node = [0]\<rparr>]\<rparr>"
proof -
  let ?a = "BulletList [ListItem [Paragraph [Text ''a'' None]]]"
  let ?e = "\<lparr>etype = Bullet, indent = 0, node = [0]\<rparr>"
  let ?st = "\<lparr>blocks = [?a], paragraphLines = [], listStack = [?e]\<rparr>"
  have h1: "bulletMatch (trimEnd ''  - b'') = Some (''  '', ''b'')" by code_simp
  have h2: "\<not> isTableStart (trim (trimEnd ''  - b'')) []" by (simp add: isTableStart_def)
  have s: "parseLines initialState [''- a''] = ?st" by code_simp
  have h3: "stateOK ?st"
    using stateOK_parseLines [OF stateOK_initial, of "[''- a'']"] by (simp add: s)
  have h4: "listStack ?st = ?e # []" by simp
  have g: "getLineIndent ''  '' = 2" by code_simp
  have h5: "indent ?e < getLineIndent ''  ''" by (simp add: g)
  have f: "flushParagraph ?st = ?st" by (simp add: flushParagraph_def)
  have b: "buildParagraph ''b'' = Paragraph [Text ''b'' None]" by code_simp
  from nested_bullet_item [OF h1 h2 h3 h4 h5]
  obtain parentNode items where p: "getNode (blocks (flushParagraph ?st)) (node ?e) = Some parentNode"
    "listContent parentNode = Some items"
    and r: "parseLines ?st [''  - b''] =
                parseLines
                  \<lparr>blocks =
                     updNode (node ?e)
                       (\<lambda>_. setListContent
                          (butlast items @
                             [ListItem (itemContent (last items)
                                        @ [BulletList [ListItem [buildParagraph ''b'']]])])
                          parentNode)
                       (blocks (flushParagraph ?st)),
                   paragraphLines = [],
                   listStack =
                     \<lparr>etype = Bullet, indent = getLineIndent ''  '',
                      node = node ?e @ [length items - 1, length (itemContent (last items))]\<rparr>
                     # ?e # []\<rparr>
                  []"
    by blast
  from p have "parentNode = ?a" "items = [ListItem [Paragraph [Text ''a'' None]]]"
    by (auto simp: f)
  with r have "parseLines ?st [''  - b''] =
       \<lparr>blocks = [BulletList [ListItem [Paragraph [Text ''a'' None],
                                          BulletList [ListItem [Paragraph [Text ''b'' None]]]]]],
        paragraphLines = [],
        listStack = [\<lparr>etype = Bullet, indent = 2, node = [0, 0, 1]\<rparr>, ?e]\<rparr>"
    by (simp add: f g b parseLines.simps(1))
  then show ?thesis
    using h1 h2 h3 g by (simp add: s)
qed

end
